theory Spec2Isabelle
  imports Complex_Main "HOL-Library.Word" "HOL-Library.Log_Nat" "HOL-Library.Sublist"
begin

unbundle bit_operations_syntax

section \<open>Errors\<close>

text \<open>
  Every exception the modelled functions of \<^verbatim>\<open>waveform_generator.py\<close> can raise is a
  value. The three \<^verbatim>\<open>ValueError\<close>s of the renderer are told apart by their message:
  \<open>InvalidDimension\<close> ("Height/Width must be a positive integer"), \<open>NoData\<close> ("No data
  points extracted from WAV files") and \<open>InvalidColor\<close> (raised by \<^verbatim>\<open>html2rgb\<close>, either by
  its own length test or by \<^verbatim>\<open>int(_, 16)\<close>). \<open>StructError\<close> is \<^verbatim>\<open>struct.error\<close>;
  \<open>FloatValueError\<close> is the \<^verbatim>\<open>ValueError\<close> of \<^verbatim>\<open>int(nan)\<close>.
\<close>

datatype error =
    InvalidDimension
  | NoData
  | InvalidColor
  | StructError
  | ZeroDivisionError
  | OverflowError
  | FloatValueError

text \<open>Sequencing of calls that may raise: the first exception ends the computation.\<close>

definition and_then :: "error + 'a \<Rightarrow> ('a \<Rightarrow> error + 'b) \<Rightarrow> error + 'b" where
  "and_then m f = (case m of Inl e \<Rightarrow> Inl e | Inr x \<Rightarrow> f x)"

section \<open>Python floats\<close>

text \<open>
  The sampler computes \<^verbatim>\<open>int(data / 255 * height)\<close> and the renderer tests
  \<^verbatim>\<open>v / height == 0.5\<close>; both are IEEE 754 binary64 computations. A finite double is
  \<open>Dbl m e\<close>, denoting \<open>m * 2 ^ e\<close>. Every operation is the exact result rounded to the
  nearest double, ties to the even significand, with gradual underflow (the exponent
  never goes below \<open>-1074\<close>).
\<close>

datatype pyfloat = Dbl int int | PosInf | NegInf | NaN

definition dbl_val :: "int \<Rightarrow> int \<Rightarrow> real" where
  "dbl_val m e = of_int m * 2 powi e"

definition round_half_even :: "int \<Rightarrow> int \<Rightarrow> int" where
  "round_half_even n d =
     (let q = n div d; r = n mod d
      in if 2 * r < d then q else if d < 2 * r then q + 1 else if even q then q else q + 1)"

text \<open>\<open>scale_num n e / scale_den d e\<close> is \<open>(n / d) / 2 ^ e\<close>, in integers.\<close>

definition scale_num :: "int \<Rightarrow> int \<Rightarrow> int" where
  "scale_num n e = (if e < 0 then n * 2 ^ nat (- e) else n)"

definition scale_den :: "int \<Rightarrow> int \<Rightarrow> int" where
  "scale_den d e = (if e < 0 then d else d * 2 ^ nat e)"

text \<open>The exponent \<open>e\<close> with \<open>2 ^ 52 \<le> (n / d) / 2 ^ e < 2 ^ 53\<close>, for positive \<open>n\<close>, \<open>d\<close>.\<close>

definition binary_exponent :: "int \<Rightarrow> int \<Rightarrow> int" where
  "binary_exponent n d =
     (let k = bitlen n - bitlen d - 53
      in if scale_num n k < 2 ^ 53 * scale_den d k then k else k + 1)"

text \<open>The double nearest to \<open>n / d\<close> for \<open>0 \<le> n\<close>, \<open>0 < d\<close>, before the range check.\<close>

definition round_to_double :: "int \<Rightarrow> int \<Rightarrow> int \<times> int" where
  "round_to_double n d =
     (if n = 0 then (0, 0)
      else let e = max (- 1074) (binary_exponent n d)
           in (round_half_even (scale_num n e) (scale_den d e), e))"

definition round_signed :: "int \<Rightarrow> int \<Rightarrow> int \<times> int" where
  "round_signed n d =
     (if 0 \<le> n then round_to_double n d
      else (let (m, e) = round_to_double (- n) d in (- m, e)))"

text \<open>A rounded result of magnitude \<open>2 ^ 1024\<close> or more is outside the doubles.\<close>

definition too_large :: "int \<times> int \<Rightarrow> bool" where
  "too_large r = (case r of (m, e) \<Rightarrow> scale_den (2 ^ 1024) (- e) \<le> scale_num \<bar>m\<bar> (- e))"

text \<open>\<^verbatim>\<open>a / b\<close> on two Python ints: correctly rounded true division.\<close>

definition py_truediv :: "int \<Rightarrow> int \<Rightarrow> error + pyfloat" where
  "py_truediv a b =
     (if b = 0 then Inl ZeroDivisionError
      else let r = round_signed (a * sgn b) \<bar>b\<bar>
           in if too_large r then Inl OverflowError else Inr (Dbl (fst r) (snd r)))"

text \<open>The conversion of the int operand in \<^verbatim>\<open>float * int\<close>.\<close>

definition py_float_of_int :: "int \<Rightarrow> error + pyfloat" where
  "py_float_of_int a =
     (let r = round_signed a 1
      in if too_large r then Inl OverflowError else Inr (Dbl (fst r) (snd r)))"

fun is_zero :: "pyfloat \<Rightarrow> bool" where
  "is_zero (Dbl m e) = (m = 0)"
| "is_zero _ = False"

fun is_negative :: "pyfloat \<Rightarrow> bool" where
  "is_negative (Dbl m e) = (m < 0)"
| "is_negative NegInf = True"
| "is_negative _ = False"

text \<open>\<^verbatim>\<open>x * y\<close> on two floats: overflow gives an infinity, never an exception.\<close>

fun py_float_mul :: "pyfloat \<Rightarrow> pyfloat \<Rightarrow> pyfloat" where
  "py_float_mul (Dbl m1 e1) (Dbl m2 e2) =
     (let r = round_signed (scale_num (m1 * m2) (- (e1 + e2))) (scale_den 1 (- (e1 + e2)))
      in if too_large r then (if fst r < 0 then NegInf else PosInf)
         else Dbl (fst r) (snd r))"
| "py_float_mul NaN y = NaN"
| "py_float_mul x NaN = NaN"
| "py_float_mul x y =
     (if is_zero x \<or> is_zero y then NaN
      else if is_negative x = is_negative y then PosInf else NegInf)"

text \<open>\<^verbatim>\<open>int(x)\<close> on a float truncates towards zero.\<close>

fun py_int_of_float :: "pyfloat \<Rightarrow> error + int" where
  "py_int_of_float (Dbl m e) =
     Inr (if 0 \<le> e then m * 2 ^ nat e else sgn m * (\<bar>m\<bar> div 2 ^ nat (- e)))"
| "py_int_of_float NaN = Inl FloatValueError"
| "py_int_of_float _ = Inl OverflowError"

text \<open>\<^verbatim>\<open>x == y\<close> on two floats compares the values they denote.\<close>

fun py_float_eq :: "pyfloat \<Rightarrow> pyfloat \<Rightarrow> bool" where
  "py_float_eq (Dbl m1 e1) (Dbl m2 e2) = (scale_num m1 (e2 - e1) = scale_num m2 (e1 - e2))"
| "py_float_eq PosInf PosInf = True"
| "py_float_eq NegInf NegInf = True"
| "py_float_eq _ _ = False"

text \<open>The sampler's conversion \<^verbatim>\<open>int(data / 255 * height)\<close>.\<close>

definition pixel_height :: "int \<Rightarrow> int \<Rightarrow> error + int" where
  "pixel_height data height =
     and_then (py_truediv data 255) (\<lambda>q.
     and_then (py_float_of_int height) (\<lambda>h.
       py_int_of_float (py_float_mul q h)))"

section \<open>Container Header Parser\<close>

type_synonym byte = "8 word"

text \<open>An open binary file: its bytes and the read position.\<close>

record file_handle =
  content :: "byte list"
  pos :: nat

text \<open>\<^verbatim>\<open>handle.read(n)\<close>: at most \<open>n\<close> bytes, fewer at the end of the file.\<close>

definition fread :: "nat \<Rightarrow> file_handle \<Rightarrow> byte list \<times> file_handle" where
  "fread n h =
     (let bs = take n (drop (pos h) (content h))
      in (bs, h\<lparr>pos := pos h + length bs\<rparr>))"

text \<open>\<^verbatim>\<open>handle.seek(k, 1)\<close> for \<open>k \<ge> 0\<close>: the position may pass the end of the file.\<close>

definition fseek_cur :: "nat \<Rightarrow> file_handle \<Rightarrow> file_handle" where
  "fseek_cur k h = h\<lparr>pos := pos h + k\<rparr>"

fun le_value :: "byte list \<Rightarrow> nat" where
  "le_value [] = 0"
| "le_value (b # bs) = unat b + 256 * le_value bs"

text \<open>
  \<^verbatim>\<open>struct.unpack('<I', handle.read(4))[0]\<close> and \<^verbatim>\<open>struct.unpack('<H', handle.read(2))[0]\<close>:
  a short read makes \<^verbatim>\<open>unpack\<close> raise \<^verbatim>\<open>struct.error\<close>.
\<close>

definition read_uint :: "nat \<Rightarrow> file_handle \<Rightarrow> error + (nat \<times> file_handle)" where
  "read_uint n h =
     (case fread n h of (bs, h') \<Rightarrow>
        if length bs \<noteq> n then Inl StructError else Inr (le_value bs, h'))"

record wav_header =
  chunk_id :: "byte list"
  chunk_size :: nat
  format :: "byte list"
  subchunk1_id :: "byte list"
  subchunk1_size :: nat
  audio_format :: nat
  num_channels :: nat
  sample_rate :: nat
  byte_rate :: nat
  block_align :: nat
  bits_per_sample :: nat
  subchunk2_id :: "byte list"
  subchunk2_size :: nat

definition parse_wav_header :: "file_handle \<Rightarrow> error + (wav_header \<times> file_handle)" where
  "parse_wav_header h0 =
     (let (cid, h1) = fread 4 h0 in
      and_then (read_uint 4 h1) (\<lambda>(csz, h2).
      let (fmt, h3) = fread 4 h2; (s1id, h4) = fread 4 h3 in
      and_then (read_uint 4 h4) (\<lambda>(s1sz, h5).
      and_then (read_uint 2 h5) (\<lambda>(afmt, h6).
      and_then (read_uint 2 h6) (\<lambda>(nch, h7).
      and_then (read_uint 4 h7) (\<lambda>(srate, h8).
      and_then (read_uint 4 h8) (\<lambda>(brate, h9).
      and_then (read_uint 2 h9) (\<lambda>(balign, h10).
      and_then (read_uint 2 h10) (\<lambda>(bits, h11).
      let (s2id, h12) = fread 4 h11 in
      and_then (read_uint 4 h12) (\<lambda>(s2sz, h13).
        Inr (\<lparr>chunk_id = cid, chunk_size = csz, format = fmt, subchunk1_id = s1id,
              subchunk1_size = s1sz, audio_format = afmt, num_channels = nch,
              sample_rate = srate, byte_rate = brate, block_align = balign,
              bits_per_sample = bits, subchunk2_id = s2id, subchunk2_size = s2sz\<rparr>, h13)))))))))))"

section \<open>Amplitude Sampler\<close>

definition DETAIL :: int where
  "DETAIL = 5"

definition find_values :: "int \<Rightarrow> int \<Rightarrow> int" where
  "find_values byte1 byte2 = byte1 + (byte2 * 256)"

text \<open>The decoding of one sample that was read in full (\<open>length bytes_data = byte_per_sample\<close>).\<close>

definition sample_value :: "nat \<Rightarrow> byte list \<Rightarrow> int" where
  "sample_value byte_per_sample bytes_data =
     (if byte_per_sample = 1 then uint (bytes_data ! 0)
      else if byte_per_sample = 2 then
        (let byte1 = uint (bytes_data ! 0);
             byte2 = uint (bytes_data ! 1);
             temp = (if byte2 AND 128 \<noteq> 0 then 0 else 128);
             temp = (byte2 AND 127) + temp
         in find_values byte1 temp div 256)
      else 128)"

text \<open>
  The \<^verbatim>\<open>while data_point < data_size\<close> loop. Its \<^verbatim>\<open>except (IOError, struct.error)\<close>
  catches nothing the loop body can raise on an in-memory file; the
  \<^verbatim>\<open>ZeroDivisionError\<close> of \<^verbatim>\<open>data_point % 0\<close> and the \<^verbatim>\<open>OverflowError\<close> of the float
  conversion pass through it.
\<close>

function sample_loop ::
  "nat \<Rightarrow> nat \<Rightarrow> int \<Rightarrow> int \<Rightarrow> int \<Rightarrow> file_handle \<Rightarrow> int \<Rightarrow> int list \<Rightarrow> error + int list"
where
  "sample_loop byte_per_sample ratio height detail data_size handle data_point data_points =
     (if data_point < data_size then
        if detail = 0 then Inl ZeroDivisionError
        else if data_point mod detail = 0 then
          (case fread byte_per_sample handle of (bytes_data, handle') \<Rightarrow>
             if length bytes_data < byte_per_sample then Inr data_points
             else
               (case pixel_height (sample_value byte_per_sample bytes_data) height of
                  Inl e \<Rightarrow> Inl e
                | Inr v \<Rightarrow>
                    sample_loop byte_per_sample ratio height detail data_size
                      (fseek_cur ratio handle') (data_point + 1) (data_points @ [v])))
        else
          sample_loop byte_per_sample ratio height detail data_size
            (fseek_cur (ratio + byte_per_sample) handle) (data_point + 1) data_points
      else Inr data_points)"
  by pat_completeness auto
termination
  by (relation "measure (\<lambda>(b, r, h, d, n, f, i, acc). nat (n - i))") auto

text \<open>The file named \<^verbatim>\<open>filename\<close> is given by its bytes; its size is their number.\<close>

definition process_wav_file :: "byte list \<Rightarrow> int \<Rightarrow> int \<Rightarrow> error + int list" where
  "process_wav_file file height detail =
     (case parse_wav_header \<lparr>content = file, pos = 0\<rparr> of
        Inl e \<Rightarrow> Inl e
      | Inr (header, handle) \<Rightarrow>
          (let byte_per_sample = bits_per_sample header div 8;
               ratio = (if num_channels header = 2 then 40 else 80);
               file_size = int (length file);
               data_size = (file_size - 44) div (int ratio + int byte_per_sample) + 1
           in sample_loop byte_per_sample ratio height detail data_size handle 0 []))"

section \<open>Colour parsing\<close>

text \<open>
  Strings are sequences of code points below 256. \<^verbatim>\<open>int(s, 16)\<close> on a \<^verbatim>\<open>str\<close>: white
  space is stripped at both ends, a sign and a \<^verbatim>\<open>0x\<close> prefix are accepted, and single
  underscores may separate digits. The white space is the ASCII one (tab to carriage
  return, and the blank) and, above 127, the Unicode white space (NEL and the no-break
  space), which Python maps to a blank first.
\<close>

definition is_py_space :: "char \<Rightarrow> bool" where
  "is_py_space c =
     (let n = (of_char c :: nat)
      in (9 \<le> n \<and> n \<le> 13) \<or> n = 32 \<or> n = 133 \<or> n = 160)"

definition hex_digit_value :: "char \<Rightarrow> int option" where
  "hex_digit_value c =
     (let n = (of_char c :: nat)
      in if 48 \<le> n \<and> n \<le> 57 then Some (int n - 48)
         else if 97 \<le> n \<and> n \<le> 102 then Some (int n - 87)
         else if 65 \<le> n \<and> n \<le> 70 then Some (int n - 55)
         else None)"

text \<open>
  The digit scan: the value read, the number of digits and the rest of the input;
  \<open>None\<close> on a doubled or trailing underscore.
\<close>

fun scan_hex_digits :: "char \<Rightarrow> int \<Rightarrow> nat \<Rightarrow> string \<Rightarrow> (int \<times> nat \<times> string) option" where
  "scan_hex_digits prev acc k [] = (if prev = CHR ''_'' then None else Some (acc, k, []))"
| "scan_hex_digits prev acc k (c # cs) =
     (if c = CHR ''_'' then (if prev = CHR ''_'' then None else scan_hex_digits c acc k cs)
      else (case hex_digit_value c of
              Some v \<Rightarrow> scan_hex_digits c (16 * acc + v) (Suc k) cs
            | None \<Rightarrow> (if prev = CHR ''_'' then None else Some (acc, k, c # cs))))"

definition strip_sign :: "string \<Rightarrow> int \<times> string" where
  "strip_sign s =
     (case s of
        [] \<Rightarrow> (1, [])
      | c # cs \<Rightarrow> if c = CHR ''+'' then (1, cs) else if c = CHR ''-'' then (- 1, cs) else (1, s))"

definition strip_hex_prefix :: "string \<Rightarrow> string" where
  "strip_hex_prefix s =
     (case s of
        c0 # c1 # cs \<Rightarrow>
          if c0 = CHR ''0'' \<and> (c1 = CHR ''x'' \<or> c1 = CHR ''X'')
          then (case cs of c2 # cs' \<Rightarrow> if c2 = CHR ''_'' then cs' else cs | [] \<Rightarrow> cs)
          else s
      | _ \<Rightarrow> s)"

definition py_int16 :: "string \<Rightarrow> error + int" where
  "py_int16 s =
     (let s1 = dropWhile is_py_space s;
          (sign, s2) = strip_sign s1;
          s3 = strip_hex_prefix s2
      in if s3 \<noteq> [] \<and> hd s3 = CHR ''_'' then Inl InvalidColor
         else (case scan_hex_digits (CHR 0x00) 0 0 s3 of
                 None \<Rightarrow> Inl InvalidColor
               | Some (v, k, rest) \<Rightarrow>
                   if k = 0 \<or> dropWhile is_py_space rest \<noteq> [] then Inl InvalidColor
                   else Inr (sign * v)))"

text \<open>\<^verbatim>\<open>s[i:j]\<close> for \<open>0 \<le> i \<le> j\<close>.\<close>

definition slice :: "nat \<Rightarrow> nat \<Rightarrow> 'a list \<Rightarrow> 'a list" where
  "slice i j s = take (j - i) (drop i s)"

definition html2rgb :: "string \<Rightarrow> error + (int \<times> int \<times> int)" where
  "html2rgb html_color =
     (let color = dropWhile (\<lambda>c. c = CHR ''#'') html_color
      in if length color \<noteq> 6 then Inl InvalidColor
         else and_then (py_int16 (slice 0 2 color)) (\<lambda>r.
              and_then (py_int16 (slice 2 4 color)) (\<lambda>g.
              and_then (py_int16 (slice 4 6 color)) (\<lambda>b. Inr (r, g, b)))))"

section \<open>Waveform Renderer\<close>

datatype image_mode = RGB | RGBA

datatype pixel = RGB_px int int int | RGBA_px int int int int

text \<open>
  A PIL image: its mode, its size and its pixels. Only the pixels \<open>(x, y)\<close> with
  \<open>0 \<le> x < img_width\<close> and \<open>0 \<le> y < img_height\<close> belong to the image.
\<close>

record canvas =
  img_mode :: image_mode
  img_width :: int
  img_height :: int
  pixel_at :: "int \<times> int \<Rightarrow> pixel"

text \<open>\<^verbatim>\<open>Image.new(mode, (w, h), color)\<close>.\<close>

definition new_image :: "image_mode \<Rightarrow> int \<Rightarrow> int \<Rightarrow> pixel \<Rightarrow> canvas" where
  "new_image m w h c = \<lparr>img_mode = m, img_width = w, img_height = h, pixel_at = (\<lambda>p. c)\<rparr>"

text \<open>The ink of an RGB triple: on an RGBA image it is opaque.\<close>

definition ink :: "image_mode \<Rightarrow> int \<times> int \<times> int \<Rightarrow> pixel" where
  "ink m c = (case c of (r, g, b) \<Rightarrow> (case m of RGB \<Rightarrow> RGB_px r g b | RGBA \<Rightarrow> RGBA_px r g b 255))"

text \<open>
  \<^verbatim>\<open>draw.line([(x, y1), (x, y2)], fill=c)\<close> for \<open>y1 \<le> y2\<close>: both end points are painted;
  what lies outside the image is clipped.
\<close>

definition draw_line :: "canvas \<Rightarrow> int \<Rightarrow> int \<Rightarrow> int \<Rightarrow> int \<times> int \<times> int \<Rightarrow> canvas" where
  "draw_line img x y1 y2 c =
     img\<lparr>pixel_at := (\<lambda>(px, py).
           if px = x \<and> y1 \<le> py \<and> py \<le> y2 \<and>
              0 \<le> px \<and> px < img_width img \<and> 0 \<le> py \<and> py < img_height img
           then ink (img_mode img) c
           else pixel_at img (px, py))\<rparr>"

text \<open>
  \<^verbatim>\<open>img.resize((w, h), Image.Resampling.LANCZOS)\<close>: an image of the requested size in
  the same mode. The filter itself belongs to the imaging library; it is the parameter
  \<open>lanczos\<close>.
\<close>

type_synonym resampler = "canvas \<Rightarrow> int \<Rightarrow> int \<Rightarrow> int \<times> int \<Rightarrow> pixel"

definition resize :: "resampler \<Rightarrow> canvas \<Rightarrow> int \<Rightarrow> int \<Rightarrow> canvas" where
  "resize lanczos img w h =
     \<lparr>img_mode = img_mode img, img_width = w, img_height = h, pixel_at = lanczos img w h\<rparr>"

text \<open>The test \<^verbatim>\<open>v / height == 0.5\<close>.\<close>

definition is_flat :: "int \<Rightarrow> int \<Rightarrow> error + bool" where
  "is_flat v height = and_then (py_truediv v height) (\<lambda>q. Inr (py_float_eq q (Dbl 1 (- 1))))"

text \<open>The body of the inner loop, for column \<open>x\<close> with amplitude \<open>v\<close>.\<close>

definition draw_column ::
  "int \<Rightarrow> bool \<Rightarrow> int \<times> int \<times> int \<Rightarrow> int \<Rightarrow> canvas \<Rightarrow> int \<Rightarrow> int \<Rightarrow> error + canvas"
where
  "draw_column height draw_flat fg_color y_offset img x v =
     and_then (is_flat v height) (\<lambda>flat.
       if \<not> (flat \<and> \<not> draw_flat) then
         (let y1 = y_offset + (height - v);
              y2 = y_offset + v
          in Inr (if y1 > y2 then draw_line img x y2 y1 fg_color
                  else draw_line img x y1 y2 fg_color))
       else Inr img)"

text \<open>\<^verbatim>\<open>for x, v in enumerate(data_points)\<close>, from column \<open>x\<close> on.\<close>

fun draw_channel ::
  "int \<Rightarrow> bool \<Rightarrow> int \<times> int \<times> int \<Rightarrow> int \<Rightarrow> canvas \<Rightarrow> int \<Rightarrow> int list \<Rightarrow> error + canvas"
where
  "draw_channel height draw_flat fg_color y_offset img x [] = Inr img"
| "draw_channel height draw_flat fg_color y_offset img x (v # vs) =
     and_then (draw_column height draw_flat fg_color y_offset img x v) (\<lambda>img'.
       draw_channel height draw_flat fg_color y_offset img' (x + 1) vs)"

text \<open>\<^verbatim>\<open>for wav_idx, data_points in enumerate(all_data_points)\<close>, from channel \<open>wav_idx\<close> on.\<close>

fun draw_channels ::
  "int \<Rightarrow> bool \<Rightarrow> int \<times> int \<times> int \<Rightarrow> canvas \<Rightarrow> int \<Rightarrow> int list list \<Rightarrow> error + canvas"
where
  "draw_channels height draw_flat fg_color img wav_idx [] = Inr img"
| "draw_channels height draw_flat fg_color img wav_idx (data_points # rest) =
     and_then (draw_channel height draw_flat fg_color (height * wav_idx) img 0 data_points)
       (\<lambda>img'. draw_channels height draw_flat fg_color img' (wav_idx + 1) rest)"

text \<open>The first loop: every file is sampled; the first exception ends the call.\<close>

fun process_all :: "byte list list \<Rightarrow> int \<Rightarrow> error + int list list" where
  "process_all [] height = Inr []"
| "process_all (wav_file # rest) height =
     and_then (process_wav_file wav_file height DETAIL) (\<lambda>data_points.
     and_then (process_all rest height) (\<lambda>others. Inr (data_points # others)))"

text \<open>
  The files named by \<^verbatim>\<open>wav_files\<close> are given by their bytes. An absent colour is the
  empty string.
\<close>

definition generate_waveform_image ::
  "resampler \<Rightarrow> byte list list \<Rightarrow> int \<Rightarrow> int \<Rightarrow> string \<Rightarrow> string \<Rightarrow> bool \<Rightarrow> error + canvas"
where
  "generate_waveform_image lanczos wav_files width height foreground background draw_flat =
     (if height \<le> 0 then Inl InvalidDimension
      else if width \<le> 0 then Inl InvalidDimension
      else
        and_then (process_all wav_files height) (\<lambda>all_data_points.
          if all_data_points = [] \<or> hd all_data_points = [] then Inl NoData
          else
            (let original_width = int (length (hd all_data_points));
                 total_height = height * int (length wav_files)
             in and_then
                  (if background = [] then
                     Inr (new_image RGBA original_width total_height (RGBA_px 0 0 0 0))
                   else
                     and_then (html2rgb background) (\<lambda>bg_color.
                       Inr (new_image RGB original_width total_height (ink RGB bg_color))))
                  (\<lambda>img.
                and_then (if foreground \<noteq> [] then html2rgb foreground else Inr (255, 0, 0))
                  (\<lambda>fg_color.
                and_then (draw_channels height draw_flat fg_color img 0 all_data_points)
                  (\<lambda>img.
                  if width \<noteq> original_width then Inr (resize lanczos img width height)
                  else Inr img))))))"

section \<open>Music analysis\<close>

definition KEY_NAMES :: "string list" where
  "KEY_NAMES = [''C'', ''C#'', ''D'', ''D#'', ''E'', ''F'', ''F#'', ''G'', ''G#'', ''A'', ''A#'', ''B'']"

text \<open>
  The result dictionary of \<^verbatim>\<open>analyze_music\<close>. The key \<^verbatim>\<open>'error'\<close> is absent unless it is
  set; \<^verbatim>\<open>instrument_chords\<close> maps an instrument to its chord fingerings.
\<close>

record analysis =
  key :: string
  mode :: string
  scale :: string
  tempo :: real
  time_signature :: string
  duration :: real
  energy :: string
  possible_chords :: "string list"
  instrument_chords :: "(string \<times> (string \<times> string) list) list"
  instruments :: "string list"
  genre_hints :: "string list"
  analysis_available :: bool
  error_message :: "string option"

definition initial_analysis :: analysis where
  "initial_analysis =
     \<lparr>key = ''Unknown'', mode = ''Unknown'', scale = ''Unknown'', tempo = 0,
      time_signature = ''4/4'', duration = 0, energy = ''Medium'', possible_chords = [],
      instrument_chords = [], instruments = [], genre_hints = [],
      analysis_available = False, error_message = None\<rparr>"

text \<open>
  \<^verbatim>\<open>np.corrcoef(chroma_mean, rotated)[0, 1]\<close> belongs to the numerical library: it is the
  parameter \<open>corrcoef\<close> of what follows, with \<open>None\<close> for \<^verbatim>\<open>nan\<close>. Every finite double is
  a real number, so whatever the library computes is covered.
\<close>

type_synonym correlation = "real list \<Rightarrow> int list \<Rightarrow> real option"

text \<open>\<^verbatim>\<open>np.roll(template, k)\<close>: element \<open>i\<close> moves to position \<open>(i + k) mod n\<close>.\<close>

definition np_roll :: "nat \<Rightarrow> 'a list \<Rightarrow> 'a list" where
  "np_roll k xs =
     (let n = length xs
      in if n = 0 then [] else drop (n - k mod n) xs @ take (n - k mod n) xs)"

text \<open>\<^verbatim>\<open>np.argmax\<close> on a non-empty vector: the first index of the largest element.\<close>

fun argmax_from :: "nat \<Rightarrow> real \<Rightarrow> nat \<Rightarrow> real list \<Rightarrow> nat" where
  "argmax_from best_i best_v i [] = best_i"
| "argmax_from best_i best_v i (v # vs) =
     (if best_v < v then argmax_from i v (Suc i) vs else argmax_from best_i best_v (Suc i) vs)"

definition np_argmax :: "real list \<Rightarrow> nat" where
  "np_argmax xs = argmax_from 0 (hd xs) 1 (tl xs)"

definition scale_templates :: "(string \<times> int list) list" where
  "scale_templates =
     [(''Ionian (Major)'', [1, 0, 1, 0, 1, 1, 0, 1, 0, 1, 0, 1]),
      (''Dorian'', [1, 0, 1, 1, 0, 1, 0, 1, 0, 1, 1, 0]),
      (''Phrygian'', [1, 1, 0, 1, 0, 1, 0, 1, 1, 0, 1, 0]),
      (''Lydian'', [1, 0, 1, 0, 1, 0, 1, 1, 0, 1, 0, 1]),
      (''Mixolydian'', [1, 0, 1, 0, 1, 1, 0, 1, 0, 1, 1, 0]),
      (''Aeolian (Minor)'', [1, 0, 1, 1, 0, 1, 0, 1, 1, 0, 1, 0]),
      (''Locrian'', [1, 1, 0, 1, 0, 1, 1, 0, 1, 0, 1, 0])]"

text \<open>
  The loop \<^verbatim>\<open>for scale_name, template in scale_templates.items()\<close>, carrying
  \<^verbatim>\<open>(best_scale, best_correlation)\<close>.
\<close>

fun best_scale_loop ::
  "correlation \<Rightarrow> real list \<Rightarrow> nat \<Rightarrow> (string \<times> int list) list \<Rightarrow> string \<times> real \<Rightarrow> string \<times> real"
where
  "best_scale_loop corrcoef chroma_mean key_idx [] best = best"
| "best_scale_loop corrcoef chroma_mean key_idx ((scale_name, template) # rest) best =
     (case corrcoef chroma_mean (np_roll key_idx template) of
        Some correlation \<Rightarrow>
          if correlation > snd best
          then best_scale_loop corrcoef chroma_mean key_idx rest (scale_name, correlation)
          else best_scale_loop corrcoef chroma_mean key_idx rest best
      | None \<Rightarrow> best_scale_loop corrcoef chroma_mean key_idx rest best)"

definition find_best_scale :: "correlation \<Rightarrow> real list \<Rightarrow> string" where
  "find_best_scale corrcoef chroma_mean =
     fst (best_scale_loop corrcoef chroma_mean (np_argmax chroma_mean) scale_templates
            (''Ionian (Major)'', - 1))"

text \<open>\<^verbatim>\<open>'Minor' in best_scale or best_scale in ['Dorian', 'Phrygian', 'Locrian']\<close>.\<close>

definition mode_of_scale :: "string \<Rightarrow> string" where
  "mode_of_scale best_scale =
     (if sublist ''Minor'' best_scale \<or> best_scale \<in> set [''Dorian'', ''Phrygian'', ''Locrian'']
      then ''Minor'' else ''Major'')"

text \<open>The key, scale and mode steps of the analysis, on the mean chroma vector.\<close>

definition set_key_scale_mode :: "correlation \<Rightarrow> real list \<Rightarrow> analysis \<Rightarrow> analysis" where
  "set_key_scale_mode corrcoef chroma_mean a =
     (let key_idx = np_argmax chroma_mean;
          best_scale = find_best_scale corrcoef chroma_mean
      in a\<lparr>key := KEY_NAMES ! key_idx, scale := best_scale, mode := mode_of_scale best_scale\<rparr>)"

definition chord_templates :: "(string \<times> int list) list" where
  "chord_templates =
     [(''Major'', [1, 0, 0, 0, 1, 0, 0, 1, 0, 0, 0, 0]),
      (''Minor'', [1, 0, 0, 1, 0, 0, 0, 1, 0, 0, 0, 0]),
      (''7th'', [1, 0, 0, 0, 1, 0, 0, 1, 0, 0, 1, 0])]"

text \<open>The inner loop over the chord types, for one root.\<close>

fun chords_of_key ::
  "correlation \<Rightarrow> real list \<Rightarrow> nat \<Rightarrow> string \<Rightarrow> (string \<times> int list) list \<Rightarrow> (string \<times> real) list"
where
  "chords_of_key corrcoef chroma_mean key_i key_name [] = []"
| "chords_of_key corrcoef chroma_mean key_i key_name ((chord_type, template) # rest) =
     (case corrcoef chroma_mean (np_roll key_i template) of
        Some correlation \<Rightarrow> [(key_name @ '' '' @ chord_type, correlation)]
      | None \<Rightarrow> [])
     @ chords_of_key corrcoef chroma_mean key_i key_name rest"

text \<open>The outer loop \<^verbatim>\<open>for key_i, key_name in enumerate(KEY_NAMES)\<close>, from root \<open>key_i\<close> on.\<close>

fun chord_candidates :: "correlation \<Rightarrow> real list \<Rightarrow> nat \<Rightarrow> string list \<Rightarrow> (string \<times> real) list" where
  "chord_candidates corrcoef chroma_mean key_i [] = []"
| "chord_candidates corrcoef chroma_mean key_i (key_name # rest) =
     chords_of_key corrcoef chroma_mean key_i key_name chord_templates
     @ chord_candidates corrcoef chroma_mean (Suc key_i) rest"

text \<open>
  \<^verbatim>\<open>possible_chords.sort(key=lambda x: x[1], reverse=True)\<close>: Python's sort is stable,
  also with \<^verbatim>\<open>reverse=True\<close>.
\<close>

definition sort_descending :: "(string \<times> real) list \<Rightarrow> (string \<times> real) list" where
  "sort_descending cs = sort_key (\<lambda>c. - snd c) cs"

definition rank_chords :: "correlation \<Rightarrow> real list \<Rightarrow> string list" where
  "rank_chords corrcoef chroma_mean =
     map fst (take 4 (sort_descending (chord_candidates corrcoef chroma_mean 0 KEY_NAMES)))"

text \<open>
  \<^verbatim>\<open>analyze_music\<close>. The body of its \<^verbatim>\<open>try\<close> runs the external signal analysis on the
  file and fills the result (with \<open>set_key_scale_mode\<close> and \<open>rank_chords\<close> above for the
  key, the scale, the mode and the chords); it is the parameter \<open>librosa_analysis\<close>.
\<close>

definition analyze_music :: "bool \<Rightarrow> (string \<Rightarrow> analysis \<Rightarrow> analysis) \<Rightarrow> string \<Rightarrow> analysis" where
  "analyze_music LIBROSA_AVAILABLE librosa_analysis mp3_path =
     (let analysis = initial_analysis
      in if \<not> LIBROSA_AVAILABLE
         then analysis\<lparr>error_message := Some ''Music analysis library not available''\<rparr>
         else librosa_analysis mp3_path analysis)"

section \<open>Example inputs\<close>

text \<open>
  A file with the canonical 44-byte header, of which only the channel count (offset 22)
  and the bits per sample (offset 34) are not zero, followed by the payload.
\<close>

definition wav_file :: "nat \<Rightarrow> nat \<Rightarrow> byte list \<Rightarrow> byte list" where
  "wav_file channels bits payload =
     replicate 22 0 @ [of_nat channels, 0] @ replicate 10 0 @ [of_nat bits, 0]
     @ replicate 8 0 @ payload"

text \<open>A resampling filter to run the renderer with: the nearest source pixel.\<close>

definition nearest_neighbour :: resampler where
  "nearest_neighbour img w h =
     (\<lambda>(x, y). pixel_at img (x * img_width img div w, y * img_height img div h))"

text \<open>The size of the canvas a call returns, or its error.\<close>

definition canvas_size :: "error + canvas \<Rightarrow> error + int \<times> int" where
  "canvas_size r = (case r of Inl e \<Rightarrow> Inl e | Inr img \<Rightarrow> Inr (img_width img, img_height img))"

section \<open>The exceptions a call can raise\<close>

text \<open>\<open>fails_within S m\<close>: if \<open>m\<close> raises, the exception is one of \<open>S\<close>.\<close>

definition fails_within :: "error set \<Rightarrow> error + 'a \<Rightarrow> bool" where
  "fails_within S m = (case m of Inl e \<Rightarrow> e \<in> S | Inr x \<Rightarrow> True)"

text \<open>What the sampler can raise.\<close>

definition sampler_errors :: "error set" where
  "sampler_errors = {StructError, ZeroDivisionError, OverflowError, FloatValueError}"

text \<open>Two canvases of the same size and mode.\<close>

definition same_shape :: "canvas \<Rightarrow> canvas \<Rightarrow> bool" where
  "same_shape a b =
     (img_width a = img_width b \<and> img_height a = img_height b \<and> img_mode a = img_mode b)"

text \<open>The pixel of the canvas a call returns, or its error.\<close>

definition pixel_of :: "error + canvas \<Rightarrow> int \<Rightarrow> int \<Rightarrow> error + pixel" where
  "pixel_of r x y = (case r of Inl e \<Rightarrow> Inl e | Inr img \<Rightarrow> Inr (pixel_at img (x, y)))"

text \<open>
  What \<^verbatim>\<open>process_wav_file\<close> reads off the header of a file of at least 44 bytes: the
  bytes per sample, the ratio, and the total sample count \<open>N\<close>.
\<close>

definition byte_per_sample_of :: "byte list \<Rightarrow> nat" where
  "byte_per_sample_of file = le_value (take 2 (drop 34 file)) div 8"

definition ratio_of :: "byte list \<Rightarrow> nat" where
  "ratio_of file = (if le_value (take 2 (drop 22 file)) = 2 then 40 else 80)"

definition total_samples :: "byte list \<Rightarrow> int" where
  "total_samples file =
     (int (length file) - 44) div (int (ratio_of file) + int (byte_per_sample_of file)) + 1"

text \<open>
  The read of index \<open>i\<close> starts at byte \<open>44 + i * (ratio + byte_per_sample)\<close>; it is
  complete when the file holds all its bytes. No read truncates when the read of every
  index below \<open>N\<close> that the stride retains is complete.
\<close>

definition read_complete :: "byte list \<Rightarrow> nat \<Rightarrow> bool" where
  "read_complete file i =
     (44 + i * (ratio_of file + byte_per_sample_of file) + byte_per_sample_of file
        \<le> length file)"

definition no_read_truncates :: "byte list \<Rightarrow> int \<Rightarrow> bool" where
  "no_read_truncates file detail =
     list_all (\<lambda>i. int i mod detail = 0 \<longrightarrow> read_complete file i)
       [0..<nat (total_samples file)]"

text \<open>
  An instance of the parameter \<open>corrcoef\<close> to run the classifier and the ranker with: the
  Pearson correlation coefficient in exact real arithmetic, undefined when one of the
  two vectors has no variance. It stands for the numerical library, not for code of the
  repository.
\<close>

definition list_mean :: "real list \<Rightarrow> real" where
  "list_mean xs = sum_list xs / real (length xs)"

definition centred :: "real list \<Rightarrow> real list" where
  "centred xs = map (\<lambda>v. v - list_mean xs) xs"

definition dot :: "real list \<Rightarrow> real list \<Rightarrow> real" where
  "dot as bs = sum_list (map2 (*) as bs)"

definition pearson :: correlation where
  "pearson x t =
     (let a = centred x; b = centred (map real_of_int t)
      in if dot a a = 0 \<or> dot b b = 0 then None
         else Some (dot a b / sqrt (dot a a * dot b b)))"

text \<open>The Ionian scale and the Major chord at pitch class 0, as pitch-class vectors.\<close>

definition ionian_vector :: "real list" where
  "ionian_vector = [1, 0, 1, 0, 1, 1, 0, 1, 0, 1, 0, 1]"

definition c_major_vector :: "real list" where
  "c_major_vector = [1, 0, 0, 0, 1, 0, 0, 1, 0, 0, 0, 0]"

text \<open>
  The bytes of the sample with index \<open>i\<close>, the indices whose samples the loop reads (those
  the stride retains, up to the first read that the end of the file cuts short, where
  the loop breaks), and the pixel heights computed for them, in order.
\<close>

definition sample_bytes :: "byte list \<Rightarrow> nat \<Rightarrow> byte list" where
  "sample_bytes file i =
     take (byte_per_sample_of file)
       (drop (44 + i * (ratio_of file + byte_per_sample_of file)) file)"

definition retained_reads :: "byte list \<Rightarrow> int \<Rightarrow> nat list" where
  "retained_reads file detail =
     takeWhile (read_complete file)
       (filter (\<lambda>i. int i mod detail = 0) [0..<nat (total_samples file)])"

definition retained_heights :: "byte list \<Rightarrow> int \<Rightarrow> int \<Rightarrow> (error + int) list" where
  "retained_heights file height detail =
     map (\<lambda>i. pixel_height (sample_value (byte_per_sample_of file) (sample_bytes file i)) height)
       (retained_reads file detail)"

text \<open>The values of a list of results, or the first exception among them.\<close>

fun collect :: "(error + 'a) list \<Rightarrow> error + 'a list" where
  "collect [] = Inr []"
| "collect (Inl e # rs) = Inl e"
| "collect (Inr v # rs) = and_then (collect rs) (\<lambda>vs. Inr (v # vs))"

section \<open>Rounding to a double\<close>

lemma scale_den_pos: "0 < d \<Longrightarrow> 0 < scale_den d e"
  by (simp add: scale_den_def)

lemma scale_ratio:
  "0 < d \<Longrightarrow> real_of_int (scale_num n e) / real_of_int (scale_den d e)
     = (real_of_int n / real_of_int d) / 2 powi e"
  by (simp add: scale_num_def scale_den_def power_int_def field_simps)

lemma round_half_even_int:
  assumes "0 < d"
  shows "2 * \<bar>round_half_even n d * d - n\<bar> \<le> d"
proof -
  define q where "q = n div d"
  define r where "r = n mod d"
  have n: "n = q * d + r" by (simp add: q_def r_def)
  have r: "0 \<le> r" "r < d" using assms by (simp_all add: r_def)
  have "round_half_even n d = q \<and> 2 * r \<le> d \<or> round_half_even n d = q + 1 \<and> d \<le> 2 * r"
    by (auto simp: round_half_even_def Let_def q_def r_def)
  then show ?thesis
  proof
    assume "round_half_even n d = q \<and> 2 * r \<le> d"
    then show ?thesis using n r by simp
  next
    assume a: "round_half_even n d = q + 1 \<and> d \<le> 2 * r"
    then have "round_half_even n d * d - n = d - r" using n by (simp add: algebra_simps)
    then show ?thesis using a r by simp
  qed
qed

lemma round_half_even_real:
  assumes "0 < d"
  shows "\<bar>real_of_int (round_half_even n d) - real_of_int n / real_of_int d\<bar> \<le> 1 / 2"
proof -
  have "real_of_int (2 * \<bar>round_half_even n d * d - n\<bar>) \<le> real_of_int d"
    using round_half_even_int[OF assms, of n] by linarith
  then have "2 * \<bar>real_of_int (round_half_even n d) * real_of_int d - real_of_int n\<bar> \<le> real_of_int d"
    by simp
  moreover have "real_of_int (round_half_even n d) - real_of_int n / real_of_int d
      = (real_of_int (round_half_even n d) * real_of_int d - real_of_int n) / real_of_int d"
    using assms by (simp add: field_simps)
  ultimately show ?thesis using assms
    by (simp add: abs_divide field_simps abs_of_pos)
qed

lemma bitlen_real_bounds:
  assumes "0 < n"
  shows "2 powi (bitlen n - 1) \<le> real_of_int n" "real_of_int n < 2 powi (bitlen n)"
proof -
  have b: "1 \<le> bitlen n" using assms bitlen_eq_zero_iff[of n] bitlen_nonneg[of n] by linarith
  from bitlen_bounds[OF assms] have "2 ^ nat (bitlen n - 1) \<le> n" "n < 2 ^ nat (bitlen n)" by auto
  then have "real_of_int (2 ^ nat (bitlen n - 1)) \<le> real_of_int n"
      "real_of_int n < real_of_int (2 ^ nat (bitlen n))"
    by linarith+
  then show "2 powi (bitlen n - 1) \<le> real_of_int n" "real_of_int n < 2 powi (bitlen n)"
    using b by (simp_all add: power_int_def)
qed

lemma binary_exponent_bounds:
  assumes "0 < n" "0 < d"
  defines "e \<equiv> binary_exponent n d"
  shows "2 ^ 52 * 2 powi e \<le> real_of_int n / real_of_int d"
    and "real_of_int n / real_of_int d < 2 ^ 53 * 2 powi e"
proof -
  define k where "k = bitlen n - bitlen d - 53"
  define q where "q = real_of_int n / real_of_int d"
  have qpos: "0 < q" using assms by (simp add: q_def)
  have dn: "2 powi (bitlen n - 1) \<le> real_of_int n" "real_of_int n < 2 powi (bitlen n)"
    using bitlen_real_bounds[OF assms(1)] by auto
  have dd: "2 powi (bitlen d - 1) \<le> real_of_int d" "real_of_int d < 2 powi (bitlen d)"
    using bitlen_real_bounds[OF assms(2)] by auto
  have up: "q < 2 powi (k + 54)"
  proof -
    have "q \<le> real_of_int n / 2 powi (bitlen d - 1)"
      unfolding q_def using dd(1) assms by (intro divide_left_mono) (auto intro!: mult_pos_pos)
    also have "\<dots> < 2 powi (bitlen n) / 2 powi (bitlen d - 1)"
      using dn(2) by (intro divide_strict_right_mono) auto
    also have "\<dots> = 2 powi (k + 54)"
      by (simp add: k_def power_int_diff[symmetric] algebra_simps)
    finally show ?thesis .
  qed
  have lo: "2 powi (k + 52) < q"
  proof -
    have "2 powi (k + 52) = 2 powi (bitlen n - 1) / (2 powi (bitlen d) :: real)"
      by (simp add: k_def power_int_diff[symmetric] algebra_simps)
    also have "\<dots> \<le> real_of_int n / 2 powi (bitlen d)"
      using dn(1) by (intro divide_right_mono) auto
    also have "\<dots> < q"
      unfolding q_def using dd(2) assms by (intro divide_strict_left_mono) (auto intro!: mult_pos_pos)
    finally show ?thesis .
  qed
  have test: "(scale_num n k < 2 ^ 53 * scale_den d k) = (q < 2 ^ 53 * 2 powi k)"
  proof -
    have sd: "0 < real_of_int (scale_den d k)" using scale_den_pos[OF assms(2)] by simp
    have "(scale_num n k < 2 ^ 53 * scale_den d k)
        = (real_of_int (scale_num n k) < 2 ^ 53 * real_of_int (scale_den d k))"
      by (metis of_int_less_iff of_int_mult of_int_numeral of_int_power)
    also have "\<dots> = (real_of_int (scale_num n k) / real_of_int (scale_den d k) < 2 ^ 53)"
      using sd by (simp add: field_simps)
    also have "\<dots> = (q / 2 powi k < 2 ^ 53)"
      by (simp add: scale_ratio[OF assms(2)] q_def)
    also have "\<dots> = (q < 2 ^ 53 * 2 powi k)"
      by (simp add: field_simps)
    finally show ?thesis .
  qed
  have p1: "(2::real) powi (k + 1) = 2 * 2 powi k"
    by (simp add: power_int_add)
  have p52: "(2::real) powi (k + 52) = 2 ^ 52 * 2 powi k"
    by (simp add: power_int_add)
  have p54: "(2::real) powi (k + 54) = 2 ^ 54 * 2 powi k"
    by (simp add: power_int_add)
  have e: "e = (if q < 2 ^ 53 * 2 powi k then k else k + 1)"
    unfolding e_def binary_exponent_def Let_def k_def[symmetric] using test by simp
  show "2 ^ 52 * 2 powi e \<le> q"
    using lo p52 p1 e by (auto split: if_splits)
  show "q < 2 ^ 53 * 2 powi e"
    using up p54 p1 e by (auto split: if_splits)
qed

lemma too_large_iff:
  "too_large (m, e) \<longleftrightarrow> 2 ^ 1024 \<le> \<bar>dbl_val m e\<bar>"
proof -
  have pos: "0 < real_of_int (scale_den (2 ^ 1024) (- e))"
    using scale_den_pos[of "2 ^ 1024" "- e"] by simp
  have "too_large (m, e) \<longleftrightarrow>
      real_of_int (scale_den (2 ^ 1024) (- e)) \<le> real_of_int (scale_num \<bar>m\<bar> (- e))"
    unfolding too_large_def by (simp only: prod.case of_int_le_iff)
  also have "\<dots> \<longleftrightarrow> 1 \<le> real_of_int (scale_num \<bar>m\<bar> (- e)) / real_of_int (scale_den (2 ^ 1024) (- e))"
    using pos by (simp add: field_simps)
  also have "real_of_int (scale_num \<bar>m\<bar> (- e)) / real_of_int (scale_den (2 ^ 1024) (- e))
      = (real_of_int \<bar>m\<bar> / real_of_int (2 ^ 1024)) / 2 powi (- e)"
    by (rule scale_ratio) simp
  also have "\<dots> = \<bar>dbl_val m e\<bar> / 2 ^ 1024"
    by (simp add: dbl_val_def power_int_minus abs_mult field_simps)
  also have "1 \<le> \<bar>dbl_val m e\<bar> / 2 ^ 1024 \<longleftrightarrow> 2 ^ 1024 \<le> \<bar>dbl_val m e\<bar>"
    by (simp add: field_simps)
  finally show ?thesis .
qed

lemma powi_less_imp_less:
  "(2::real) powi a < 2 powi b \<Longrightarrow> a < b"
  by (metis linorder_not_less one_le_numeral power_int_increasing)

lemma round_to_double_spec:
  assumes "0 < n" "0 < d" "2 powi (- 1022) \<le> real_of_int n / real_of_int d"
    and "round_to_double n d = (m, e)"
  shows "0 < m"
    and "\<bar>dbl_val m e - real_of_int n / real_of_int d\<bar> \<le> (real_of_int n / real_of_int d) / 2 ^ 53"
    and "e = binary_exponent n d"
proof -
  define q where "q = real_of_int n / real_of_int d"
  define b where "b = binary_exponent n d"
  have lo: "2 ^ 52 * 2 powi b \<le> q" and up: "q < 2 ^ 53 * 2 powi b"
    using binary_exponent_bounds[OF assms(1,2)] by (simp_all add: q_def b_def)
  have "(2::real) ^ 53 * 2 powi b = 2 powi (53 + b)"
    by (simp add: power_int_add)
  then have "q < 2 powi (53 + b)" using up by simp
  moreover have "2 powi (- 1022) \<le> q" using assms(3) by (simp only: q_def)
  ultimately have "(2::real) powi (- 1022) < 2 powi (53 + b)"
    by (rule order_le_less_trans[rotated])
  then have "- 1022 < 53 + b" by (rule powi_less_imp_less)
  then have clamp: "max (- 1074) b = b" by simp
  have me: "e = b" "m = round_half_even (scale_num n b) (scale_den d b)"
    using assms(4) assms(1) clamp by (auto simp add: round_to_double_def Let_def b_def[symmetric])
  show "e = binary_exponent n d" using me by (simp add: b_def)
  have p: "0 < (2::real) powi b" by simp
  have "\<bar>real_of_int m - real_of_int (scale_num n b) / real_of_int (scale_den d b)\<bar> \<le> 1 / 2"
    unfolding me by (rule round_half_even_real) (rule scale_den_pos[OF assms(2)])
  then have r: "\<bar>real_of_int m - q / 2 powi b\<bar> \<le> 1 / 2"
    by (simp add: scale_ratio[OF assms(2)] q_def)
  have "dbl_val m e - q = (real_of_int m - q / 2 powi b) * 2 powi b"
    by (simp add: dbl_val_def me field_simps)
  then have "\<bar>dbl_val m e - q\<bar> = \<bar>real_of_int m - q / 2 powi b\<bar> * 2 powi b"
    by (simp add: abs_mult)
  also have "\<dots> \<le> (1 / 2) * 2 powi b"
    using r p by (intro mult_right_mono) auto
  also have "\<dots> \<le> q / 2 ^ 53"
    using lo by (simp add: field_simps)
  finally show "\<bar>dbl_val m e - real_of_int n / real_of_int d\<bar>
      \<le> (real_of_int n / real_of_int d) / 2 ^ 53"
    by (simp add: q_def)
  have "2 ^ 52 \<le> q / 2 powi b" using lo p by (simp add: field_simps)
  moreover have "(1::real) \<le> 2 ^ 52" by simp
  ultimately have "0 < real_of_int m" using r by linarith
  then show "0 < m" by simp
qed

lemma py_int_of_float_floor:
  assumes "0 \<le> m"
  shows "py_int_of_float (Dbl m e) = Inr \<lfloor>dbl_val m e\<rfloor>"
proof (cases "0 \<le> e")
  case True
  then have "dbl_val m e = real_of_int (m * 2 ^ nat e)"
    by (simp add: dbl_val_def power_int_def)
  then have "\<lfloor>dbl_val m e\<rfloor> = m * 2 ^ nat e"
    by (simp only: floor_of_int)
  then show ?thesis using True by simp
next
  case False
  then have "dbl_val m e = real_of_int m / real_of_int (2 ^ nat (- e))"
    by (simp add: dbl_val_def power_int_def field_simps)
  then have "\<lfloor>dbl_val m e\<rfloor> = m div 2 ^ nat (- e)"
    by (simp only: floor_divide_of_int_eq)
  moreover have "sgn m * (\<bar>m\<bar> div 2 ^ nat (- e)) = m div 2 ^ nat (- e)"
    using assms by (cases "m = 0") (simp_all add: sgn_if)
  ultimately show ?thesis using False by simp
qed

lemma round_signed_nonneg:
  assumes "0 \<le> n" "0 < d"
    and "n = 0 \<or> 2 powi (- 1022) \<le> real_of_int n / real_of_int d"
    and "real_of_int n / real_of_int d < 2 ^ 1023"
  obtains m e where "round_signed n d = (m, e)" "0 \<le> m" "0 < n \<longrightarrow> 0 < m"
    "\<bar>dbl_val m e - real_of_int n / real_of_int d\<bar> \<le> (real_of_int n / real_of_int d) / 2 ^ 53"
    "\<not> too_large (m, e)"
proof (cases "n = 0")
  case True
  have "round_signed n d = (0, 0)" using True by (simp add: round_signed_def round_to_double_def)
  moreover have "\<not> too_large (0, 0)" by (simp add: too_large_iff dbl_val_def)
  ultimately show ?thesis using that[of 0 0] True by (simp add: dbl_val_def)
next
  case False
  then have n: "0 < n" using assms(1) by simp
  obtain m e where me: "round_to_double n d = (m, e)" by (cases "round_to_double n d")
  define q where "q = real_of_int n / real_of_int d"
  have q: "2 powi (- 1022) \<le> q" "q < 2 ^ 1023" "0 < q"
    using assms(3,4) False n assms(2) by (simp_all add: q_def)
  have m: "0 < m" and err: "\<bar>dbl_val m e - q\<bar> \<le> q / 2 ^ 53"
    using round_to_double_spec[OF n assms(2) _ me] q(1) by (simp_all add: q_def)
  have "q / 2 ^ 53 \<le> q" using q(3) by (simp add: field_simps)
  then have "\<bar>dbl_val m e\<bar> \<le> 2 * q" using err by linarith
  also have "\<dots> < 2 * 2 ^ 1023" using q(2) by simp
  finally have "\<not> too_large (m, e)" by (simp add: too_large_iff)
  moreover have "round_signed n d = (m, e)" using me assms(1) by (simp add: round_signed_def)
  ultimately show ?thesis using that[of m e] m err by (simp add: q_def)
qed

lemma round_to_double_exact:
  assumes "0 < h" "h < 2 ^ 53" "round_to_double h 1 = (m, e)"
  shows "dbl_val m e = real_of_int h"
proof -
  define b where "b = binary_exponent h 1"
  have one: "(2::real) powi (- 1022) \<le> real_of_int h / real_of_int 1"
  proof -
    have "(2::real) powi (- 1022) \<le> 2 powi 0" by (rule power_int_increasing) simp_all
    also have "\<dots> \<le> real_of_int h" using assms(1) by simp
    finally show ?thesis by simp
  qed
  have eb: "e = b"
    using round_to_double_spec(3)[OF assms(1) _ one assms(3)] by (simp add: b_def)
  have "2 ^ 52 * 2 powi b \<le> real_of_int h / real_of_int 1"
    using binary_exponent_bounds(1)[OF assms(1), of 1] by (simp add: b_def)
  moreover have "real_of_int h < 2 ^ 53" using assms(2)
    by (metis of_int_less_iff of_int_numeral of_int_power)
  ultimately have "2 ^ 52 * 2 powi b < (2::real) ^ 53" by simp
  then have "(2::real) powi b < 2 powi 1" by simp
  then have b0: "b \<le> 0" using powi_less_imp_less[of b 1] by simp
  have "(2::real) powi (- 1022) < 2 powi (53 + b)"
  proof -
    have "real_of_int h / real_of_int 1 < 2 ^ 53 * 2 powi b"
      using binary_exponent_bounds(2)[OF assms(1), of 1] by (simp add: b_def)
    then have "real_of_int h / real_of_int 1 < 2 powi (53 + b)" by (simp add: power_int_add)
    with one show ?thesis by (rule order_le_less_trans)
  qed
  then have "- 1022 < 53 + b" by (rule powi_less_imp_less)
  then have clamp: "max (- 1074) b = b" by simp
  have sd: "scale_den 1 b = 1" using b0 by (simp add: scale_den_def)
  have sn: "scale_num h b = h * 2 ^ nat (- b)" using b0 by (cases "b = 0") (simp_all add: scale_num_def)
  have "m = round_half_even (scale_num h b) (scale_den 1 b)"
    using assms(3) assms(1) clamp by (auto simp add: round_to_double_def Let_def b_def[symmetric])
  then have "m = h * 2 ^ nat (- b)" by (simp add: sd sn round_half_even_def)
  then show ?thesis using b0 eb by (simp add: dbl_val_def power_int_def field_simps)
qed

section \<open>The pixel height of a sample\<close>

lemma tiny_le: "(2::real) powi (- 1022) \<le> 1 / 1024"
proof -
  have "(2::real) powi (- 1022) \<le> 2 powi (- 10)" by (rule power_int_increasing) simp_all
  also have "\<dots> = 1 / 1024" by (simp add: power_int_minus_divide)
  finally show ?thesis .
qed

lemma pixel_height_real:
  assumes "0 \<le> data" "data \<le> 255" "0 \<le> H" "H \<le> 2 ^ 1000"
  obtains x h y where "pixel_height data H = Inr \<lfloor>y\<rfloor>"
    "\<bar>x - real_of_int data / 255\<bar> \<le> (real_of_int data / 255) / 2 ^ 53" "x \<le> 1"
    "\<bar>h - real_of_int H\<bar> \<le> real_of_int H / 2 ^ 53"
    "H < 2 ^ 53 \<longrightarrow> h = real_of_int H"
    "\<bar>y - x * h\<bar> \<le> x * h / 2 ^ 53"
proof -
  define q where "q = real_of_int data / real_of_int 255"
  have q: "0 \<le> q" "q \<le> 1" "data = 0 \<or> 1 / 255 \<le> q"
    using assms(1,2) by (auto simp: q_def field_simps)
  have q1: "data = 0 \<or> 2 powi (- 1022) \<le> q" using q(3) tiny_le by linarith
  have "(1::real) < 2 ^ 1023" by (rule one_less_power) simp_all
  then have q2: "q < 2 ^ 1023" using q(2) by linarith
  obtain m1 e1 where r1: "round_signed data 255 = (m1, e1)" and m1: "0 \<le> m1" "0 < data \<longrightarrow> 0 < m1"
    and x: "\<bar>dbl_val m1 e1 - q\<bar> \<le> q / 2 ^ 53" and t1: "\<not> too_large (m1, e1)"
    using round_signed_nonneg[OF assms(1), of 255] q1 q2 unfolding q_def by (metis zero_less_numeral)
  have x1: "dbl_val m1 e1 \<le> 1"
  proof (cases "data = 255")
    case True
    have "round_signed 255 255 = (2 ^ 52, - 52)"
      by (simp add: round_signed_def round_to_double_def binary_exponent_def compute_bitlen
          scale_num_def scale_den_def round_half_even_def Let_def)
    then have "m1 = 2 ^ 52" "e1 = - 52" using r1 True by simp_all
    then show ?thesis by (simp add: dbl_val_def power_int_minus_divide)
  next
    case False
    then have "real_of_int data \<le> 254" using assms(2) by simp
    then have "q \<le> 254 / 255" by (simp add: q_def)
    moreover have "q / 2 ^ 53 \<le> q / 512" using q(1) by (simp add: field_simps)
    ultimately show ?thesis using x by linarith
  qed
  have d1: "py_truediv data 255 = Inr (Dbl m1 e1)"
    using r1 t1 by (simp add: py_truediv_def)
  have Hr: "real_of_int H \<le> 2 ^ 1000" using assms(4)
    by (metis of_int_le_iff of_int_numeral of_int_power)
  have h1: "H = 0 \<or> 2 powi (- 1022) \<le> real_of_int H / real_of_int 1"
  proof (cases "H = 0")
    case False
    then have "1 \<le> real_of_int H" using assms(3) by simp
    then show ?thesis using tiny_le by simp
  qed simp
  have h2: "real_of_int H / real_of_int 1 < 2 ^ 1023"
  proof -
    have "(2::real) ^ 1000 < 2 ^ 1023" by (rule power_strict_increasing) simp_all
    then show ?thesis using Hr by simp
  qed
  obtain m2 e2 where r2: "round_signed H 1 = (m2, e2)" and m2: "0 \<le> m2" "0 < H \<longrightarrow> 0 < m2"
    and h0: "\<bar>dbl_val m2 e2 - real_of_int H / real_of_int 1\<bar> \<le> (real_of_int H / real_of_int 1) / 2 ^ 53"
    and t2: "\<not> too_large (m2, e2)"
    using round_signed_nonneg[OF assms(3), of 1, OF _ h1 h2] by (metis zero_less_one)
  have h: "\<bar>dbl_val m2 e2 - real_of_int H\<bar> \<le> real_of_int H / 2 ^ 53"
    using h0 by (simp only: of_int_1 div_by_1)
  have d2: "py_float_of_int H = Inr (Dbl m2 e2)"
    using r2 t2 by (simp add: py_float_of_int_def)
  have hex: "H < 2 ^ 53 \<longrightarrow> dbl_val m2 e2 = real_of_int H"
  proof (cases "H = 0")
    case True
    then show ?thesis using r2 by (simp add: round_signed_def round_to_double_def dbl_val_def)
  next
    case False
    then have "0 < H" using assms(3) by simp
    moreover have "round_to_double H 1 = (m2, e2)" using r2 assms(3) by (simp add: round_signed_def)
    ultimately show ?thesis using round_to_double_exact by blast
  qed
  define E where "E = e1 + e2"
  define N where "N = scale_num (m1 * m2) (- E)"
  define D where "D = scale_den 1 (- E)"
  define p where "p = dbl_val m1 e1 * dbl_val m2 e2"
  have Dpos: "0 < D" unfolding D_def by (rule scale_den_pos) simp
  have Nnn: "0 \<le> N" using m1(1) m2(1) by (simp add: N_def scale_num_def)
  have ND: "real_of_int N / real_of_int D = p"
  proof -
    have "real_of_int N / real_of_int D = (real_of_int (m1 * m2) / real_of_int 1) / 2 powi (- E)"
      unfolding N_def D_def by (rule scale_ratio) simp
    also have "\<dots> = real_of_int (m1 * m2) * 2 powi E"
      by (simp add: power_int_minus field_simps)
    also have "(2::real) powi E = 2 powi e1 * 2 powi e2"
      by (simp add: E_def power_int_add)
    finally show ?thesis by (simp add: p_def dbl_val_def)
  qed
  have xv: "0 \<le> dbl_val m1 e1" "dbl_val m1 e1 \<le> 2"
  proof -
    show "0 \<le> dbl_val m1 e1" using m1(1) by (simp add: dbl_val_def)
    have "q / 2 ^ 53 \<le> q" using q(1) by (simp add: field_simps)
    then show "dbl_val m1 e1 \<le> 2" using x q(2) by linarith
  qed
  have hv: "0 \<le> dbl_val m2 e2" "dbl_val m2 e2 \<le> 2 * 2 ^ 1000"
  proof -
    show "0 \<le> dbl_val m2 e2" using m2(1) by (simp add: dbl_val_def)
    have "real_of_int H / 2 ^ 53 \<le> real_of_int H" using assms(3) by (simp add: field_simps)
    then have "dbl_val m2 e2 \<le> 2 * real_of_int H" using h by linarith
    then show "dbl_val m2 e2 \<le> 2 * 2 ^ 1000" using Hr by linarith
  qed
  have p_small: "real_of_int N / real_of_int D < 2 ^ 1023"
  proof -
    have "p \<le> 2 * (2 * 2 ^ 1000)" unfolding p_def using xv hv by (intro mult_mono) auto
    also have "\<dots> = (2::real) ^ 1002" by simp
    also have "\<dots> < 2 ^ 1023" by (rule power_strict_increasing) simp_all
    finally show ?thesis by (simp add: ND)
  qed
  have p_big: "N = 0 \<or> 2 powi (- 1022) \<le> real_of_int N / real_of_int D"
  proof (cases "data = 0 \<or> H = 0")
    case True
    then have "m1 * m2 = 0"
      using r1 r2 by (auto simp: round_signed_def round_to_double_def)
    then show ?thesis by (simp add: N_def scale_num_def)
  next
    case False
    then have dq: "1 / 255 \<le> q" and hH: "1 \<le> real_of_int H" using q(3) assms(3) by auto
    have "q / 2 ^ 53 \<le> q / 2" using q(1) by (simp add: field_simps)
    then have a: "1 / 510 \<le> dbl_val m1 e1" using x dq by linarith
    have "real_of_int H / 2 ^ 53 \<le> real_of_int H / 2" using assms(3) by (simp add: field_simps)
    then have b: "1 / 2 \<le> dbl_val m2 e2" using h hH by linarith
    have "(1 / 510) * (1 / 2) \<le> p" unfolding p_def using a b by (intro mult_mono) auto
    then have "1 / 1024 \<le> p" by simp
    then show ?thesis using tiny_le ND by linarith
  qed
  obtain m3 e3 where r3: "round_signed N D = (m3, e3)" and m3: "0 \<le> m3"
    and y: "\<bar>dbl_val m3 e3 - p\<bar> \<le> p / 2 ^ 53" and t3: "\<not> too_large (m3, e3)"
    using round_signed_nonneg[OF Nnn Dpos p_big p_small] unfolding ND by metis
  have mul: "py_float_mul (Dbl m1 e1) (Dbl m2 e2) = Dbl m3 e3"
    using r3 t3 by (simp add: N_def D_def E_def)
  have "pixel_height data H = py_int_of_float (Dbl m3 e3)"
    by (simp only: pixel_height_def and_then_def d1 d2 mul sum.case)
  then have "pixel_height data H = Inr \<lfloor>dbl_val m3 e3\<rfloor>"
    by (simp only: py_int_of_float_floor[OF m3])
  then show ?thesis
    using that[of "dbl_val m3 e3" "dbl_val m1 e1" "dbl_val m2 e2"] x x1 h hex y
    by (simp add: q_def p_def)
qed

lemma pixel_height_range:
  assumes "0 \<le> data" "data \<le> 255" "0 \<le> H" "H < 2 ^ 53"
  obtains v where "pixel_height data H = Inr v" "0 \<le> v" "v \<le> H"
proof -
  have "H \<le> 2 ^ 1000"
  proof -
    have "(2::int) ^ 53 \<le> 2 ^ 1000" by (rule power_increasing) simp_all
    then show ?thesis using assms(4) by linarith
  qed
  from pixel_height_real[OF assms(1-3) this]
  obtain x h y where v: "pixel_height data H = Inr \<lfloor>y\<rfloor>"
    and x: "\<bar>x - real_of_int data / 255\<bar> \<le> (real_of_int data / 255) / 2 ^ 53" "x \<le> 1"
    and h: "H < 2 ^ 53 \<longrightarrow> h = real_of_int H"
    and y: "\<bar>y - x * h\<bar> \<le> x * h / 2 ^ 53"
    by metis
  define q where "q = real_of_int data / 255"
  define HR where "HR = real_of_int H"
  have hH: "h = HR" using h assms(4) by (simp add: HR_def)
  have H0: "0 \<le> HR" "HR < 2 ^ 53"
    using assms(3,4) by (simp_all add: HR_def)
  have "0 \<le> q" using assms(1) by (simp add: q_def)
  then have "q / 2 ^ 53 \<le> q" by (simp add: field_simps)
  moreover have xq: "\<bar>x - q\<bar> \<le> q / 2 ^ 53" using x(1) by (simp only: q_def)
  ultimately have x0: "0 \<le> x" by linarith
  have p0: "0 \<le> x * HR" using x0 H0 by simp
  have pH: "x * HR \<le> HR" using mult_right_mono[OF x(2) H0(1)] by simp
  have y': "\<bar>y - x * HR\<bar> \<le> x * HR / 2 ^ 53" using y hH by simp
  have "x * HR / 2 ^ 53 \<le> x * HR" using p0 by (simp add: field_simps)
  then have y0: "0 \<le> y" using y' by linarith
  have "x * HR / 2 ^ 53 \<le> HR / 2 ^ 53" using pH by (simp add: field_simps)
  moreover have "HR / 2 ^ 53 < 1" using H0 by (simp add: field_simps)
  ultimately have y1: "y < HR + 1" using y' pH by linarith
  have "0 \<le> \<lfloor>y\<rfloor>" using y0 by simp
  moreover have "\<lfloor>y\<rfloor> \<le> H"
  proof -
    have "y < real_of_int (H + 1)" using y1 by (simp add: HR_def)
    then have "\<lfloor>y\<rfloor> < H + 1" by (simp only: floor_less_iff)
    then show ?thesis by simp
  qed
  ultimately show ?thesis using that v by blast
qed


section \<open>Sign symmetry of the pixel height\<close>

lemma round_signed_neg:
  "round_signed (- n) d = (- fst (round_signed n d), snd (round_signed n d))"
  by (cases "round_to_double n d"; cases "round_to_double (- n) d")
     (auto simp: round_signed_def round_to_double_def)

lemma too_large_neg: "too_large (- m, e) = too_large (m, e)"
  by (simp add: too_large_def)

lemma scale_num_neg: "scale_num (- n) e = - scale_num n e"
  by (simp add: scale_num_def)

lemma pixel_height_neg:
  "pixel_height data (- H) = (case pixel_height data H of Inl e \<Rightarrow> Inl e | Inr v \<Rightarrow> Inr (- v))"
proof (cases "py_truediv data 255")
  case (Inl e)
  then show ?thesis by (simp add: pixel_height_def and_then_def)
next
  case (Inr q)
  obtain m2 e2 where r: "round_signed H 1 = (m2, e2)" by (cases "round_signed H 1")
  then have r': "round_signed (- H) 1 = (- m2, e2)" by (simp add: round_signed_neg)
  show ?thesis
  proof (cases "too_large (m2, e2)")
    case True
    then show ?thesis using Inr r r'
      by (simp add: pixel_height_def and_then_def py_float_of_int_def too_large_neg)
  next
    case False
    have f: "py_float_of_int H = Inr (Dbl m2 e2)" "py_float_of_int (- H) = Inr (Dbl (- m2) e2)"
      using False r r' by (simp_all add: py_float_of_int_def too_large_neg)
    show ?thesis
    proof (cases q)
      case (Dbl m1 e1)
      define N where "N = scale_num (m1 * m2) (- (e1 + e2))"
      define D where "D = scale_den 1 (- (e1 + e2))"
      obtain m3 e3 where r3: "round_signed N D = (m3, e3)" by (cases "round_signed N D")
      have n: "scale_num (m1 * - m2) (- (e1 + e2)) = - N" by (simp add: N_def scale_num_neg)
      have r3': "round_signed (- N) D = (- m3, e3)" using r3 by (simp add: round_signed_neg)
      have i: "py_int_of_float (Dbl (- m3) e3) = Inr (- projr (py_int_of_float (Dbl m3 e3)))"
        by (simp add: sgn_if)
      have a: "py_float_mul (Dbl m1 e1) (Dbl m2 e2)
          = (if too_large (m3, e3) then (if m3 < 0 then NegInf else PosInf) else Dbl m3 e3)"
        using r3 by (simp add: N_def D_def)
      have b: "py_float_mul (Dbl m1 e1) (Dbl (- m2) e2)
          = (if too_large (m3, e3) then (if - m3 < 0 then NegInf else PosInf) else Dbl (- m3) e3)"
        using r3' n by (simp add: D_def too_large_neg del: mult_minus_right)
      show ?thesis
        unfolding pixel_height_def and_then_def Inr f Dbl sum.case a b
        by (simp add: sgn_if)
    next
      case PosInf
      then show ?thesis using Inr by (simp add: py_truediv_def Let_def split: if_splits)
    next
      case NegInf
      then show ?thesis using Inr by (simp add: py_truediv_def Let_def split: if_splits)
    next
      case NaN
      then show ?thesis using Inr by (simp add: py_truediv_def Let_def split: if_splits)
    qed
  qed
qed

lemma pixel_height_ok:
  assumes "0 \<le> data" "data \<le> 255" "\<bar>H\<bar> \<le> 2 ^ 1000"
  shows "\<exists>v. pixel_height data H = Inr v"
proof (cases "0 \<le> H")
  case True
  then show ?thesis using pixel_height_real[OF assms(1,2) True] assms(3) by (metis abs_of_nonneg)
next
  case False
  then have "0 \<le> - H" "- H \<le> 2 ^ 1000" using assms(3) by simp_all
  then obtain v where "pixel_height data (- H) = Inr v"
    using pixel_height_real[OF assms(1,2)] by metis
  then show ?thesis using pixel_height_neg[of data "- H"] by simp
qed

section \<open>Header and sample decoding\<close>

lemma fread_full:
  "pos h + n \<le> length (content h) \<Longrightarrow>
     fread n h = (take n (drop (pos h) (content h)), h\<lparr>pos := pos h + n\<rparr>)"
  by (simp add: fread_def Let_def)

lemma read_uint_full:
  "pos h + n \<le> length (content h) \<Longrightarrow>
     read_uint n h = Inr (le_value (take n (drop (pos h) (content h))), h\<lparr>pos := pos h + n\<rparr>)"
  by (simp add: read_uint_def fread_full)

lemma parse_wav_header_ok:
  assumes "44 \<le> length file"
  obtains header where
    "parse_wav_header \<lparr>content = file, pos = 0\<rparr> = Inr (header, \<lparr>content = file, pos = 44\<rparr>)"
    "num_channels header = le_value (take 2 (drop 22 file))"
    "bits_per_sample header = le_value (take 2 (drop 34 file))"
  using assms
  by (simp add: parse_wav_header_def fread_full read_uint_full and_then_def)

lemma sample_value_range: "0 \<le> sample_value n bs \<and> sample_value n bs \<le> 255"
proof -
  have u: "0 \<le> uint (b :: byte)" "uint b < 256" for b
    using uint_bounded[of b] by simp_all
  have a: "0 \<le> uint (b :: byte) AND 127" "uint b AND 127 \<le> 127" for b
    by (simp_all add: AND_upper2')
  have d: "(x + t * 256) div 256 = t" if "0 \<le> x" "x < 256" for x t :: int
    using that by simp
  show ?thesis
    using u[of "bs ! 0"] a[of "bs ! 1"]
    by (simp add: sample_value_def find_values_def Let_def d)
qed

section \<open>Exceptions of the sampler\<close>

lemma fails_within_Inr: "fails_within S (Inr x)"
  by (simp add: fails_within_def)

lemma fails_within_Inl: "e \<in> S \<Longrightarrow> fails_within S (Inl e)"
  by (simp add: fails_within_def)

lemma fails_within_and_then:
  "fails_within S m \<Longrightarrow> (\<And>x. fails_within S (f x)) \<Longrightarrow> fails_within S (and_then m f)"
  by (cases m) (simp_all add: fails_within_def and_then_def)

lemma fails_within_case_prod:
  "(\<And>a b. fails_within S (f a b)) \<Longrightarrow> fails_within S (case p of (a, b) \<Rightarrow> f a b)"
  by (cases p) simp

lemma fails_within_if:
  "(c \<Longrightarrow> fails_within S a) \<Longrightarrow> (\<not> c \<Longrightarrow> fails_within S b) \<Longrightarrow> fails_within S (if c then a else b)"
  by simp

lemma fails_within_mono: "fails_within S m \<Longrightarrow> S \<subseteq> T \<Longrightarrow> fails_within T m"
  by (cases m) (auto simp: fails_within_def)

lemma fails_withinD: "fails_within S m \<Longrightarrow> m = Inl e \<Longrightarrow> e \<in> S"
  by (simp add: fails_within_def)

lemmas fails_within_intros =
  fails_within_Inr fails_within_and_then fails_within_case_prod fails_within_if

lemma read_uint_fails: "fails_within {StructError} (read_uint n h)"
  unfolding read_uint_def by (intro fails_within_intros fails_within_Inl) simp

lemma parse_wav_header_fails: "fails_within {StructError} (parse_wav_header h)"
  unfolding parse_wav_header_def Let_def
  by (intro fails_within_intros read_uint_fails)

lemma py_truediv_fails: "fails_within {ZeroDivisionError, OverflowError} (py_truediv a b)"
  unfolding py_truediv_def Let_def by (intro fails_within_intros fails_within_Inl) simp_all

lemma py_float_of_int_fails: "fails_within {OverflowError} (py_float_of_int a)"
  unfolding py_float_of_int_def Let_def by (intro fails_within_intros fails_within_Inl) simp_all

lemma py_int_of_float_fails: "fails_within {OverflowError, FloatValueError} (py_int_of_float x)"
  by (cases x) (simp_all add: fails_within_def)

lemma pixel_height_fails: "fails_within sampler_errors (pixel_height d h)"
  unfolding pixel_height_def
  by (intro fails_within_intros fails_within_mono[OF py_truediv_fails]
      fails_within_mono[OF py_float_of_int_fails] fails_within_mono[OF py_int_of_float_fails])
     (simp_all add: sampler_errors_def)

lemma sample_loop_done:
  "\<not> i < n \<Longrightarrow> sample_loop b r h d n f i acc = Inr acc"
  by (subst sample_loop.simps) simp

lemma sample_loop_zero:
  "i < n \<Longrightarrow> sample_loop b r h 0 n f i acc = Inl ZeroDivisionError"
  by (subst sample_loop.simps) simp

lemma sample_loop_skip:
  "i < n \<Longrightarrow> d \<noteq> 0 \<Longrightarrow> i mod d \<noteq> 0 \<Longrightarrow>
     sample_loop b r h d n f i acc = sample_loop b r h d n (fseek_cur (r + b) f) (i + 1) acc"
  by (subst sample_loop.simps) simp

lemma sample_loop_short:
  "i < n \<Longrightarrow> d \<noteq> 0 \<Longrightarrow> i mod d = 0 \<Longrightarrow> fread b f = (bytes, f') \<Longrightarrow> length bytes < b \<Longrightarrow>
     sample_loop b r h d n f i acc = Inr acc"
  by (subst sample_loop.simps) simp

lemma sample_loop_raise:
  "i < n \<Longrightarrow> d \<noteq> 0 \<Longrightarrow> i mod d = 0 \<Longrightarrow> fread b f = (bytes, f') \<Longrightarrow> \<not> length bytes < b \<Longrightarrow>
   pixel_height (sample_value b bytes) h = Inl e \<Longrightarrow>
     sample_loop b r h d n f i acc = Inl e"
  by (subst sample_loop.simps) simp

lemma sample_loop_read:
  "i < n \<Longrightarrow> d \<noteq> 0 \<Longrightarrow> i mod d = 0 \<Longrightarrow> fread b f = (bytes, f') \<Longrightarrow> \<not> length bytes < b \<Longrightarrow>
   pixel_height (sample_value b bytes) h = Inr v \<Longrightarrow>
     sample_loop b r h d n f i acc
       = sample_loop b r h d n (fseek_cur r f') (i + 1) (acc @ [v])"
  by (subst sample_loop.simps) simp

declare sample_loop.simps [simp del]

text \<open>The cases of one turn of the loop.\<close>

lemma sample_loop_cases:
  obtains
    (stop) "\<not> i < n"
  | (zero) "i < n" "d = 0"
  | (skip) "i < n" "d \<noteq> 0" "i mod d \<noteq> 0"
  | (trunc) bytes f' where "i < n" "d \<noteq> 0" "i mod d = 0" "fread b f = (bytes, f')" "length bytes < b"
  | (fail) bytes f' e where "i < n" "d \<noteq> 0" "i mod d = 0" "fread b f = (bytes, f')"
      "\<not> length bytes < b" "pixel_height (sample_value b bytes) (h::int) = Inl e"
  | (keep) bytes f' v where "i < n" "d \<noteq> 0" "i mod d = 0" "fread b f = (bytes, f')"
      "\<not> length bytes < b" "pixel_height (sample_value b bytes) h = Inr v"
proof (cases "i < n")
  case False
  then show ?thesis using stop by simp
next
  case True
  show ?thesis
  proof (cases "d = 0")
    case True
    then show ?thesis using zero \<open>i < n\<close> by simp
  next
    case d: False
    show ?thesis
    proof (cases "i mod d = 0")
      case False
      then show ?thesis using skip True d by simp
    next
      case m: True
      obtain bytes f' where fr: "fread b f = (bytes, f')" by (cases "fread b f")
      show ?thesis
      proof (cases "length bytes < b")
        case True
        then show ?thesis using trunc \<open>i < n\<close> d m fr by simp
      next
        case False
        then show ?thesis
          using fail[OF \<open>i < n\<close> d m fr False] keep[OF \<open>i < n\<close> d m fr False]
          by (cases "pixel_height (sample_value b bytes) h") auto
      qed
    qed
  qed
qed

lemma sample_loop_fails:
  "sample_loop b r h d n f i acc = Inl e \<Longrightarrow> e \<in> sampler_errors"
proof (induction b r h d n f i acc rule: sample_loop.induct)
  case (1 b r h d n f i acc)
  show ?case
  proof (cases rule: sample_loop_cases[where i=i and n=n and d=d and b=b and f=f and h=h])
    case stop
    then show ?thesis using 1(3) by (simp add: sample_loop_done)
  next
    case zero
    then show ?thesis using 1(3) by (simp add: sample_loop_zero sampler_errors_def)
  next
    case skip
    then show ?thesis using 1(2) 1(3) by (simp add: sample_loop_skip)
  next
    case (trunc bytes f')
    then show ?thesis using 1(3) by (simp add: sample_loop_short)
  next
    case (fail bytes f' e')
    then show ?thesis
      using 1(3) fails_withinD[OF pixel_height_fails fail(6)] by (simp add: sample_loop_raise)
  next
    case (keep bytes f' v)
    then show ?thesis
      using 1(1)[OF keep(1,2,3) keep(4)[symmetric] keep(5,6)] 1(3) by (simp add: sample_loop_read)
  qed
qed

lemma process_wav_file_fails:
  "process_wav_file file h d = Inl e \<Longrightarrow> e \<in> sampler_errors"
  unfolding process_wav_file_def Let_def
  using fails_withinD[OF parse_wav_header_fails, of "\<lparr>content = file, pos = 0\<rparr>"]
  by (auto split: sum.splits prod.splits dest: sample_loop_fails simp: sampler_errors_def)

lemma process_all_fails:
  "process_all files h = Inl e \<Longrightarrow> e \<in> sampler_errors"
  by (induction files arbitrary: e)
     (auto simp: and_then_def split: sum.splits dest: process_wav_file_fails)

section \<open>The elements of the amplitude series\<close>

lemma fread_facts:
  assumes "fread b f = (bytes, f')"
  shows "bytes = take b (drop (pos f) (content f))" "content f' = content f"
    "pos f' = pos f + length bytes"
  using assms by (auto simp: fread_def Let_def)

lemma sample_loop_elems:
  assumes "sample_loop b r h d n f i acc = Inr xs"
    and "\<forall>v\<in>set acc. P v"
    and "\<And>p v. pos f \<le> p \<Longrightarrow> length (take b (drop p (content f))) = b \<Longrightarrow>
           pixel_height (sample_value b (take b (drop p (content f)))) h = Inr v \<Longrightarrow> P v"
  shows "\<forall>v\<in>set xs. P v"
  using assms
proof (induction b r h d n f i acc rule: sample_loop.induct)
  case (1 b r h d n f i acc)
  show ?case
  proof (cases rule: sample_loop_cases[where i=i and n=n and d=d and b=b and f=f and h=h])
    case stop
    then show ?thesis using 1(3,4) by (simp add: sample_loop_done)
  next
    case zero
    then show ?thesis using 1(3) by (simp add: sample_loop_zero)
  next
    case skip
    have "sample_loop b r h d n (fseek_cur (r + b) f) (i + 1) acc = Inr xs"
      using 1(3) skip by (simp add: sample_loop_skip)
    then show ?thesis
    proof (rule 1(2)[OF skip])
      show "\<forall>v\<in>set acc. P v" by (rule 1(4))
    next
      fix p w
      assume "pos (fseek_cur (r + b) f) \<le> p"
        "length (take b (drop p (content (fseek_cur (r + b) f)))) = b"
        "pixel_height (sample_value b (take b (drop p (content (fseek_cur (r + b) f))))) h = Inr w"
      then show "P w" by (intro 1(5)[of p w]) (simp_all add: fseek_cur_def)
    qed
  next
    case (trunc bytes f')
    then show ?thesis using 1(3,4) by (simp add: sample_loop_short)
  next
    case (fail bytes f' e)
    then show ?thesis using 1(3) by (simp add: sample_loop_raise)
  next
    case (keep bytes f' v)
    note fr = fread_facts[OF keep(4)]
    have len: "length (take b (drop (pos f) (content f))) = b"
      using keep(5) fr(1) by simp
    have Pv: "P v"
      using 1(5)[OF order_refl len] keep(6) fr(1) by simp
    have "sample_loop b r h d n (fseek_cur r f') (i + 1) (acc @ [v]) = Inr xs"
      using 1(3) keep by (simp add: sample_loop_read)
    then show ?thesis
    proof (rule 1(1)[OF keep(1,2,3) keep(4)[symmetric] keep(5,6)])
      show "\<forall>v\<in>set (acc @ [v]). P v" using 1(4) Pv by simp
    next
      fix p w
      assume "pos (fseek_cur r f') \<le> p"
        "length (take b (drop p (content (fseek_cur r f')))) = b"
        "pixel_height (sample_value b (take b (drop p (content (fseek_cur r f'))))) h = Inr w"
      then show "P w" using fr by (intro 1(5)[of p w]) (simp_all add: fseek_cur_def)
    qed
  qed
qed

lemma process_wav_file_elems:
  assumes "process_wav_file file h d = Inr xs"
    and "\<And>header handle p v.
           parse_wav_header \<lparr>content = file, pos = 0\<rparr> = Inr (header, handle) \<Longrightarrow>
           pos handle \<le> p \<Longrightarrow>
           length (take (bits_per_sample header div 8) (drop p (content handle)))
             = bits_per_sample header div 8 \<Longrightarrow>
           pixel_height (sample_value (bits_per_sample header div 8)
             (take (bits_per_sample header div 8) (drop p (content handle)))) h = Inr v \<Longrightarrow> P v"
  shows "\<forall>v\<in>set xs. P v"
proof (cases "parse_wav_header \<lparr>content = file, pos = 0\<rparr>")
  case (Inl e)
  then show ?thesis using assms(1) by (simp add: process_wav_file_def)
next
  case (Inr x)
  obtain header handle where x: "x = (header, handle)" by (cases x)
  show ?thesis
    using assms(1) unfolding process_wav_file_def Let_def Inr x sum.case prod.case
    by (rule sample_loop_elems) (simp_all add: assms(2)[OF Inr[unfolded x]])
qed

section \<open>Exceptions and shape of the renderer\<close>

lemma py_int16_fails: "py_int16 s = Inl e \<Longrightarrow> e = InvalidColor"
  by (auto simp: py_int16_def Let_def split: prod.splits option.splits if_splits)

lemma html2rgb_fails: "html2rgb s = Inl e \<Longrightarrow> e = InvalidColor"
  by (auto simp: html2rgb_def Let_def and_then_def split: sum.splits if_splits dest: py_int16_fails)

lemma is_flat_fails: "is_flat v h = Inl e \<Longrightarrow> e \<in> {ZeroDivisionError, OverflowError}"
  using fails_withinD[OF py_truediv_fails, of v h e]
  by (auto simp: is_flat_def and_then_def split: sum.splits)

lemma draw_column_fails:
  "draw_column h fl fg y img x v = Inl e \<Longrightarrow> e \<in> {ZeroDivisionError, OverflowError}"
  by (auto simp: draw_column_def and_then_def Let_def split: sum.splits if_splits dest: is_flat_fails)

lemma draw_channel_fails:
  "draw_channel h fl fg y img x vs = Inl e \<Longrightarrow> e \<in> {ZeroDivisionError, OverflowError}"
proof (induction vs arbitrary: img x)
  case Nil
  then show ?case by simp
next
  case (Cons v vs)
  then show ?case
    by (cases "draw_column h fl fg y img x v") (auto simp: and_then_def dest: draw_column_fails)
qed

lemma draw_channels_fails:
  "draw_channels h fl fg img k ds = Inl e \<Longrightarrow> e \<in> {ZeroDivisionError, OverflowError}"
proof (induction ds arbitrary: img k)
  case Nil
  then show ?case by simp
next
  case (Cons d ds)
  then show ?case
    by (cases "draw_channel h fl fg (h * k) img 0 d") (auto simp: and_then_def dest: draw_channel_fails)
qed

lemma draw_column_shape:
  "draw_column h fl fg y img x v = Inr img' \<Longrightarrow> same_shape img' img"
  by (auto simp: draw_column_def and_then_def Let_def draw_line_def same_shape_def
      split: sum.splits if_splits)

lemma draw_channel_shape:
  "draw_channel h fl fg y img x vs = Inr img' \<Longrightarrow> same_shape img' img"
proof (induction vs arbitrary: img x)
  case Nil
  then show ?case by (simp add: same_shape_def)
next
  case (Cons v vs)
  then show ?case
    by (cases "draw_column h fl fg y img x v")
       (auto simp: and_then_def same_shape_def dest!: draw_column_shape)
qed

lemma draw_channels_shape:
  "draw_channels h fl fg img k ds = Inr img' \<Longrightarrow> same_shape img' img"
proof (induction ds arbitrary: img k)
  case Nil
  then show ?case by (simp add: same_shape_def)
next
  case (Cons d ds)
  then show ?case
    by (cases "draw_channel h fl fg (h * k) img 0 d")
       (auto simp: and_then_def same_shape_def dest!: draw_channel_shape)
qed

lemma generate_waveform_image_Inr:
  assumes "generate_waveform_image lanczos wav_files width height foreground background draw_flat
             = Inr img"
  shows "\<exists>series blank fg painted.
           process_all wav_files height = Inr series \<and> series \<noteq> [] \<and> hd series \<noteq> []
           \<and> 0 < height \<and> 0 < width
           \<and> img_width blank = int (length (hd series))
           \<and> img_height blank = height * int (length wav_files)
           \<and> draw_channels height draw_flat fg blank 0 series = Inr painted
           \<and> img = (if width \<noteq> int (length (hd series))
                    then resize lanczos painted width height else painted)"
proof -
  have hw: "0 < height" "0 < width"
    using assms by (auto simp: generate_waveform_image_def split: if_splits)
  obtain series where s: "process_all wav_files height = Inr series"
    using assms hw by (cases "process_all wav_files height")
      (auto simp: generate_waveform_image_def and_then_def)
  have ne: "series \<noteq> []" "hd series \<noteq> []"
    using assms hw s by (auto simp: generate_waveform_image_def and_then_def split: if_splits)
  let ?w = "int (length (hd series))"
  let ?h = "height * int (length wav_files)"
  define blank_r where "blank_r =
    (if background = [] then Inr (new_image RGBA ?w ?h (RGBA_px 0 0 0 0))
     else and_then (html2rgb background) (\<lambda>bg_color. Inr (new_image RGB ?w ?h (ink RGB bg_color))))"
  define fg_r where "fg_r = (if foreground \<noteq> [] then html2rgb foreground else Inr (255, 0, 0))"
  have g: "and_then blank_r (\<lambda>img0. and_then fg_r (\<lambda>fg_color.
             and_then (draw_channels height draw_flat fg_color img0 0 series) (\<lambda>img1.
               if width \<noteq> ?w then Inr (resize lanczos img1 width height) else Inr img1)))
           = Inr img"
    using assms hw s ne
    by (simp add: generate_waveform_image_def and_then_def Let_def blank_r_def fg_r_def)
  then obtain blank where b: "blank_r = Inr blank"
    by (cases blank_r) (simp_all add: and_then_def)
  then obtain fg where f: "fg_r = Inr fg"
    using g by (cases fg_r) (simp_all add: and_then_def)
  then obtain painted where p: "draw_channels height draw_flat fg blank 0 series = Inr painted"
    using g b by (cases "draw_channels height draw_flat fg blank 0 series") (simp_all add: and_then_def)
  have i: "img = (if width \<noteq> ?w then resize lanczos painted width height else painted)"
    using g b f p by (simp add: and_then_def split: if_splits)
  have "img_width blank = ?w \<and> img_height blank = ?h"
    using b by (auto simp: blank_r_def new_image_def and_then_def split: if_splits sum.splits)
  then show ?thesis using s ne hw p i by blast
qed








section \<open>The length of the amplitude series\<close>

lemma ceil_step_keep:
  fixes i d :: int
  assumes "0 < d" "i mod d = 0"
  shows "(i + 1 + d - 1) div d = (i + d - 1) div d + 1"
proof -
  from assms(2) have "d dvd i" by (simp add: dvd_eq_mod_eq_0)
  then obtain q where q: "i = d * q" by (elim dvdE)
  have "(i + 1 + d - 1) div d = (d * q + d) div d" by (simp add: q)
  also have "\<dots> = q + 1" using assms(1) by simp
  finally have a: "(i + 1 + d - 1) div d = q + 1" .
  have "(i + d - 1) div d = (d * q + (d - 1)) div d" by (simp add: q algebra_simps)
  also have "\<dots> = q + (d - 1) div d" using assms(1) by (subst div_mult_self4) simp_all
  also have "(d - 1) div d = 0" using assms(1) by (simp add: div_pos_pos_trivial)
  finally show ?thesis using a by simp
qed

lemma ceil_step_skip:
  fixes i d :: int
  assumes "0 < d" "i mod d \<noteq> 0"
  shows "(i + 1 + d - 1) div d = (i + d - 1) div d"
proof -
  define q where "q = i div d"
  define r where "r = i mod d"
  have i: "i = d * q + r" by (simp add: q_def r_def)
  have "0 \<le> r" "r < d" using assms(1) by (simp_all add: r_def)
  then have r: "0 < r" "r < d" using assms(2) by (simp_all add: r_def)
  have "(i + 1 + d - 1) div d = (d * (q + 1) + r) div d" by (simp add: i algebra_simps)
  also have "\<dots> = q + 1 + r div d" using assms(1) by (subst div_mult_self4) simp_all
  also have "r div d = 0" using r by (simp add: div_pos_pos_trivial)
  finally have a: "(i + 1 + d - 1) div d = q + 1" by simp
  have "(i + d - 1) div d = (d * (q + 1) + (r - 1)) div d" by (simp add: i algebra_simps)
  also have "\<dots> = q + 1 + (r - 1) div d" using assms(1) by (subst div_mult_self4) simp_all
  also have "(r - 1) div d = 0" using r by (simp add: div_pos_pos_trivial)
  finally show ?thesis using a by simp
qed

lemma ceiling_div:
  fixes n d :: int
  assumes "0 < d"
  shows "\<lceil>real_of_int n / real_of_int d\<rceil> = (n + d - 1) div d"
proof -
  define k where "k = (n + d - 1) div d"
  define r where "r = (n + d - 1) mod d"
  have e: "n + d - 1 = d * k + r" by (simp add: k_def r_def)
  have r: "0 \<le> r" "r < d" using assms by (simp_all add: r_def)
  have dr: "0 < real_of_int d" using assms by simp
  have "\<lceil>real_of_int n / real_of_int d\<rceil> = k"
  proof (rule ceiling_unique)
    have "n \<le> d * k" using e r by linarith
    then have "real_of_int n \<le> real_of_int d * real_of_int k"
      by (metis of_int_le_iff of_int_mult)
    then show "real_of_int n / real_of_int d \<le> real_of_int k"
      using dr by (simp add: field_simps)
    have "d * k - d < n" using e r by linarith
    then have "real_of_int (d * k - d) < real_of_int n" by (simp only: of_int_less_iff)
    then have "real_of_int d * (real_of_int k - 1) < real_of_int n"
      by (simp add: algebra_simps)
    then show "real_of_int k - 1 < real_of_int n / real_of_int d"
      using dr by (simp add: field_simps)
  qed
  then show ?thesis by (simp only: k_def)
qed

lemma sample_loop_length:
  assumes "0 < d" "0 \<le> i" "i \<le> n" "content f = file" "pos f = 44 + nat i * (r + b)"
    and "\<forall>j. i \<le> j \<and> j < n \<and> j mod d = 0 \<longrightarrow> 44 + nat j * (r + b) + b \<le> length file"
    and "\<bar>h\<bar> \<le> 2 ^ 1000"
  shows "\<exists>xs. sample_loop b r h d n f i acc = Inr xs
           \<and> int (length xs) = int (length acc) + ((n + d - 1) div d - (i + d - 1) div d)"
  using assms
proof (induction b r h d n f i acc rule: sample_loop.induct)
  case (1 b r h d n f i acc)
  note d = \<open>0 < d\<close> and i = \<open>0 \<le> i\<close> \<open>i \<le> n\<close> and c = \<open>content f = file\<close>
    and p = \<open>pos f = 44 + nat i * (r + b)\<close>
    and fits = \<open>\<forall>j. i \<le> j \<and> j < n \<and> j mod d = 0 \<longrightarrow> 44 + nat j * (r + b) + b \<le> length file\<close>
    and h = \<open>\<bar>h\<bar> \<le> 2 ^ 1000\<close>
  have nat_suc: "nat (i + 1) = nat i + 1" using i(1) by simp
  have fits': "\<forall>j. i + 1 \<le> j \<and> j < n \<and> j mod d = 0 \<longrightarrow> 44 + nat j * (r + b) + b \<le> length file"
    using fits by simp
  show ?case
  proof (cases rule: sample_loop_cases[where i=i and n=n and d=d and b=b and f=f and h=h])
    case stop
    then have "i = n" using i(2) by simp
    then show ?thesis using stop by (simp add: sample_loop_done)
  next
    case zero
    then show ?thesis using d by simp
  next
    case skip
    have "\<exists>xs. sample_loop b r h d n (fseek_cur (r + b) f) (i + 1) acc = Inr xs
           \<and> int (length xs) = int (length acc) + ((n + d - 1) div d - (i + 1 + d - 1) div d)"
    proof (rule 1(2)[OF skip d])
      show "0 \<le> i + 1" using i(1) by simp
      show "i + 1 \<le> n" using skip(1) by simp
      show "content (fseek_cur (r + b) f) = file" using c by (simp add: fseek_cur_def)
      show "pos (fseek_cur (r + b) f) = 44 + nat (i + 1) * (r + b)"
        using p by (simp add: fseek_cur_def nat_suc)
      show "\<forall>j. i + 1 \<le> j \<and> j < n \<and> j mod d = 0 \<longrightarrow> 44 + nat j * (r + b) + b \<le> length file"
        by (rule fits')
      show "\<bar>h\<bar> \<le> 2 ^ 1000" by (rule h)
    qed
    then obtain xs where xs: "sample_loop b r h d n (fseek_cur (r + b) f) (i + 1) acc = Inr xs"
      "int (length xs) = int (length acc) + ((n + d - 1) div d - (i + 1 + d - 1) div d)"
      by blast
    have "sample_loop b r h d n f i acc = Inr xs"
      using xs(1) skip by (simp add: sample_loop_skip)
    moreover have "int (length xs) = int (length acc) + ((n + d - 1) div d - (i + d - 1) div d)"
      using xs(2) unfolding ceil_step_skip[OF d skip(3)] .
    ultimately show ?thesis by blast
  next
    case (trunc bytes f')
    have "44 + nat i * (r + b) + b \<le> length file" using fits trunc(1,3) by simp
    then have "length (take b (drop (pos f) (content f))) = b" using p c by simp
    then show ?thesis using fread_facts(1)[OF trunc(4)] trunc(5) by simp
  next
    case (fail bytes f' e)
    have "\<exists>v. pixel_height (sample_value b bytes) h = Inr v"
      using pixel_height_ok[OF _ _ h] sample_value_range[of b bytes] by simp
    then show ?thesis using fail(6) by simp
  next
    case (keep bytes f' v)
    note fr = fread_facts[OF keep(4)]
    have "44 + nat i * (r + b) + b \<le> length file" using fits keep(1,3) by simp
    then have len: "length bytes = b" using p c fr(1) by simp
    have "\<exists>xs. sample_loop b r h d n (fseek_cur r f') (i + 1) (acc @ [v]) = Inr xs
           \<and> int (length xs) = int (length (acc @ [v])) + ((n + d - 1) div d - (i + 1 + d - 1) div d)"
    proof (rule 1(1)[OF keep(1,2,3) keep(4)[symmetric] keep(5,6) d])
      show "0 \<le> i + 1" using i(1) by simp
      show "i + 1 \<le> n" using keep(1) by simp
      show "content (fseek_cur r f') = file" using c fr(2) by (simp add: fseek_cur_def)
      show "pos (fseek_cur r f') = 44 + nat (i + 1) * (r + b)"
        using p fr(3) len by (simp add: fseek_cur_def nat_suc)
      show "\<forall>j. i + 1 \<le> j \<and> j < n \<and> j mod d = 0 \<longrightarrow> 44 + nat j * (r + b) + b \<le> length file"
        by (rule fits')
      show "\<bar>h\<bar> \<le> 2 ^ 1000" by (rule h)
    qed
    then obtain xs where xs: "sample_loop b r h d n (fseek_cur r f') (i + 1) (acc @ [v]) = Inr xs"
      "int (length xs) = int (length (acc @ [v])) + ((n + d - 1) div d - (i + 1 + d - 1) div d)"
      by blast
    have "sample_loop b r h d n f i acc = Inr xs"
      using xs(1) keep by (simp add: sample_loop_read)
    moreover have "int (length xs) = int (length acc) + ((n + d - 1) div d - (i + d - 1) div d)"
      using xs(2) unfolding ceil_step_keep[OF d keep(3)] by simp
    ultimately show ?thesis by blast
  qed
qed

section \<open>Silence\<close>

lemma zero_bytes:
  assumes "set (drop 44 file) \<subseteq> {0}" "44 \<le> p" "length (take 2 (drop p file)) = 2"
  shows "take 2 (drop p file) = [0, 0 :: byte]"
proof -
  have "set (take 2 (drop p file)) \<subseteq> set (drop p file)" by (rule set_take_subset)
  also have "\<dots> \<subseteq> set (drop 44 file)" using assms(2) by (rule set_drop_subset_set_drop)
  finally have s: "set (take 2 (drop p file)) \<subseteq> {0}" using assms(1) by simp
  obtain x y where xy: "take 2 (drop p file) = [x, y]"
    using assms(3) by (metis (no_types, opaque_lifting) One_nat_def Suc_1 length_0_conv length_Suc_conv)
  then show ?thesis using s by simp
qed

lemma silent_sample: "pixel_height (sample_value 2 [0, 0]) 100 = Inr 50"
  by code_simp

lemma half_is_flat: "is_flat 50 100 = Inr True"
  by code_simp

lemma draw_channel_flat:
  "draw_channel 100 False fg_color y_offset img x (replicate n 50) = Inr img"
  by (induction n arbitrary: x) (simp_all add: draw_column_def and_then_def half_is_flat)

lemma sample_loop_returns:
  assumes "d \<noteq> 0" "\<bar>h\<bar> \<le> 2 ^ 1000"
  shows "\<exists>xs. sample_loop b r h d n f i acc = Inr xs"
  using assms
proof (induction b r h d n f i acc rule: sample_loop.induct)
  case (1 b r h d n f i acc)
  show ?case
  proof (cases rule: sample_loop_cases[where i=i and n=n and d=d and b=b and f=f and h=h])
    case stop
    then show ?thesis by (simp add: sample_loop_done)
  next
    case zero
    then show ?thesis using 1(3) by simp
  next
    case skip
    then show ?thesis using 1(2)[OF skip 1(3,4)] by (simp add: sample_loop_skip)
  next
    case (trunc bytes f')
    then show ?thesis by (simp add: sample_loop_short)
  next
    case (fail bytes f' e)
    have "\<exists>v. pixel_height (sample_value b bytes) h = Inr v"
      using pixel_height_ok[OF _ _ 1(4)] sample_value_range[of b bytes] by simp
    then show ?thesis using fail(6) by simp
  next
    case (keep bytes f' v)
    then show ?thesis
      using 1(1)[OF keep(1,2,3) keep(4)[symmetric] keep(5,6) 1(3,4)] by (simp add: sample_loop_read)
  qed
qed

text \<open>
  Claim C5. For every file of at least 44 bytes in which no read truncates, every
  stride \<open>D > 0\<close> and every height that a double can hold, \<^verbatim>\<open>process_wav_file\<close> returns
  a series of exactly \<open>\<lceil>N / D\<rceil>\<close> amplitude points, where
  \<open>N = (file_size - 44) div (ratio + byte_per_sample) + 1\<close> and the ratio is 40 if the
  header's channel count is 2, else 80.
\<close>

theorem retained_columns_count:
  assumes "44 \<le> length file" "0 < detail" "\<bar>height\<bar> \<le> 2 ^ 1000"
    and "no_read_truncates file detail"
  shows "\<exists>xs. process_wav_file file height detail = Inr xs
           \<and> int (length xs) = \<lceil>real_of_int (total_samples file) / real_of_int detail\<rceil>"
proof -
  from parse_wav_header_ok[OF assms(1)] obtain header where
    p: "parse_wav_header \<lparr>content = file, pos = 0\<rparr> = Inr (header, \<lparr>content = file, pos = 44\<rparr>)"
    and ch: "num_channels header = le_value (take 2 (drop 22 file))"
    and bits: "bits_per_sample header = le_value (take 2 (drop 34 file))"
    by metis
  let ?b = "byte_per_sample_of file"
  let ?r = "ratio_of file"
  let ?n = "total_samples file"
  have div0: "0 \<le> (int (length file) - 44) div (int ?r + int ?b)"
    using assms(1) by (intro pos_imp_zdiv_nonneg_iff[THEN iffD2]) (simp_all add: ratio_of_def)
  then have n: "0 \<le> ?n" by (simp add: total_samples_def)
  have fits: "\<forall>j. 0 \<le> j \<and> j < ?n \<and> j mod detail = 0 \<longrightarrow> 44 + nat j * (?r + ?b) + ?b \<le> length file"
  proof (intro allI impI)
    fix j assume j: "0 \<le> j \<and> j < ?n \<and> j mod detail = 0"
    then have "nat j \<in> set [0..<nat ?n]" by simp
    moreover have "\<forall>i\<in>set [0..<nat ?n]. int i mod detail = 0 \<longrightarrow> read_complete file i"
      using assms(4) unfolding no_read_truncates_def list_all_iff .
    ultimately have "int (nat j) mod detail = 0 \<longrightarrow> read_complete file (nat j)"
      by (rule bspec[rotated])
    then show "44 + nat j * (?r + ?b) + ?b \<le> length file"
      using j by (simp add: read_complete_def)
  qed
  have pr: "process_wav_file file height detail
      = sample_loop ?b ?r height detail ?n \<lparr>content = file, pos = 44\<rparr> 0 []"
    by (simp add: process_wav_file_def p Let_def byte_per_sample_of_def ratio_of_def
        total_samples_def ch bits)
  have "\<exists>xs. sample_loop ?b ?r height detail ?n \<lparr>content = file, pos = 44\<rparr> 0 [] = Inr xs
      \<and> int (length xs) = int (length ([]::int list))
          + ((?n + detail - 1) div detail - (0 + detail - 1) div detail)"
    by (rule sample_loop_length[OF assms(2) _ n _ _ fits assms(3)]) simp_all
  moreover have "(0 + detail - 1) div detail = 0" using assms(2) by (simp add: div_pos_pos_trivial)
  ultimately show ?thesis
    unfolding pr ceiling_div[OF assms(2)] by simp
qed

text \<open>
  The theorem at an 8-bit mono file of 200 samples of value 77, height 100 and stride 2:
  \<open>N = 3\<close>, and the two indices 0 and 2 are retained.
\<close>

theorem retained_columns_count_witness:
  "process_wav_file (wav_file 1 8 (replicate 200 77)) 100 2 = Inr [30, 30]
   \<and> total_samples (wav_file 1 8 (replicate 200 77)) = 3
   \<and> \<lceil>real_of_int 3 / real_of_int 2\<rceil> = (2::int)"
proof -
  let ?f = "wav_file 1 8 (replicate 200 77)"
  have a: "44 \<le> length ?f" by (simp add: wav_file_def)
  have b: "no_read_truncates ?f 2" by code_simp
  have c: "\<bar>100::int\<bar> \<le> 2 ^ 1000" by simp
  have t: "total_samples ?f = 3" by code_simp
  have p: "process_wav_file ?f 100 2 = Inr [30, 30]" by code_simp
  from retained_columns_count[OF a _ c b] t p
  show ?thesis by simp
qed




text \<open>
  Claim C1, as amended. For a 16-bit PCM file whose payload bytes are all zero,
  processed with target height 100, every value of the amplitude series is 50 (the
  midline: a zero sample decodes to the byte value 128), and when that series is
  rendered with \<^verbatim>\<open>draw_flat\<close> false every column is suppressed by the flat-line test:
  painting leaves the canvas as it was.
\<close>

theorem silent_16bit_payload:
  assumes "44 \<le> length file" "le_value (take 2 (drop 34 file)) = 16"
    and "set (drop 44 file) \<subseteq> {0}"
  shows "\<exists>n. process_wav_file file 100 DETAIL = Inr (replicate n 50)
           \<and> draw_channels 100 False fg_color img 0 [replicate n 50] = Inr img"
proof -
  from parse_wav_header_ok[OF assms(1)] obtain header where
    p: "parse_wav_header \<lparr>content = file, pos = 0\<rparr> = Inr (header, \<lparr>content = file, pos = 44\<rparr>)"
    and bits: "bits_per_sample header = le_value (take 2 (drop 34 file))"
    by metis
  have b: "bits_per_sample header div 8 = 2" using bits assms(2) by simp
  have "\<exists>xs. process_wav_file file 100 DETAIL = Inr xs"
    unfolding process_wav_file_def p Let_def sum.case prod.case
    by (rule sample_loop_returns) (simp_all add: DETAIL_def)
  then obtain xs where xs: "process_wav_file file 100 DETAIL = Inr xs" ..
  have "\<forall>v\<in>set xs. v = 50"
    using xs
  proof (rule process_wav_file_elems)
    fix header' handle' q v
    assume "parse_wav_header \<lparr>content = file, pos = 0\<rparr> = Inr (header', handle')"
    then have e: "header' = header" "handle' = \<lparr>content = file, pos = 44\<rparr>" using p by simp_all
    assume "pos handle' \<le> q"
      and "length (take (bits_per_sample header' div 8) (drop q (content handle')))
        = bits_per_sample header' div 8"
      and "pixel_height (sample_value (bits_per_sample header' div 8)
         (take (bits_per_sample header' div 8) (drop q (content handle')))) 100 = Inr v"
    then have q: "44 \<le> q" "length (take 2 (drop q file)) = 2"
      and v: "pixel_height (sample_value 2 (take 2 (drop q file))) 100 = Inr v"
      unfolding e b by simp_all
    show "v = 50"
      using v unfolding zero_bytes[OF assms(3) q] silent_sample by simp
  qed
  then have "replicate (length xs) 50 = xs" by (intro replicate_length_same) simp
  then have "process_wav_file file 100 DETAIL = Inr (replicate (length xs) 50)"
    using xs by simp
  moreover have "draw_channels 100 False fg_color img 0 [replicate (length xs) 50] = Inr img"
    by (simp add: draw_channel_flat and_then_def)
  ultimately show ?thesis by blast
qed

text \<open>
  The theorem at a mono file of 100 zero samples: the series is \<open>[50]\<close> and painting
  it leaves a white canvas white.
\<close>

theorem silent_16bit_payload_witness:
  "process_wav_file (wav_file 1 16 (replicate 200 0)) 100 DETAIL = Inr [50]
   \<and> draw_channels 100 False (255, 0, 0) (new_image RGB 1 100 (RGB_px 255 255 255)) 0 [[50]]
       = Inr (new_image RGB 1 100 (RGB_px 255 255 255))"
proof -
  let ?f = "wav_file 1 16 (replicate 200 0)"
  have a: "44 \<le> length ?f" by (simp add: wav_file_def)
  have b: "le_value (take 2 (drop 34 ?f)) = 16" by code_simp
  have c: "set (drop 44 ?f) \<subseteq> {0}" by (simp add: wav_file_def)
  have p: "process_wav_file ?f 100 DETAIL = Inr [50]" by code_simp
  from silent_16bit_payload[OF a b c, of "(255, 0, 0)" "new_image RGB 1 100 (RGB_px 255 255 255)"]
  obtain n where n: "process_wav_file ?f 100 DETAIL = Inr (replicate n 50)"
    "draw_channels 100 False (255, 0, 0) (new_image RGB 1 100 (RGB_px 255 255 255)) 0
       [replicate n 50] = Inr (new_image RGB 1 100 (RGB_px 255 255 255))"
    by blast
  have "replicate n (50::int) = [50]" using n(1) p by simp
  then show ?thesis using n(2) p by simp
qed

text \<open>
  Claim C1 as stated fails: for that file the series holds 50, not 0, and the rendered
  canvas has the background colour at \<open>(0, 50)\<close>, where the column would be drawn.
\<close>

theorem silent_payload_counterexample:
  "process_wav_file (wav_file 1 16 (replicate 200 0)) 100 DETAIL = Inr [50]
   \<and> pixel_of (generate_waveform_image nearest_neighbour [wav_file 1 16 (replicate 200 0)]
         1 100 ''#FF0000'' ''#FFFFFF'' False) 0 50 = Inr (RGB_px 255 255 255)"
  by code_simp

section \<open>Claims about the Amplitude Sampler\<close>

text \<open>
  Claim C10, as amended. For every input file and every target height \<open>H\<close> with
  \<open>0 \<le> H < 2 ^ 53\<close>, every element \<open>v\<close> of the amplitude series returned by
  \<^verbatim>\<open>process_wav_file\<close> satisfies \<open>0 \<le> v \<le> H\<close>: the decoded byte value lies in
  \<open>0..255\<close>, its quotient by 255 is a double in \<open>[0, 1]\<close>, and the height is converted
  to a double without rounding.
\<close>

theorem amplitude_within_height:
  assumes "0 \<le> height" "height < 2 ^ 53" "process_wav_file file height detail = Inr xs"
  shows "\<forall>v\<in>set xs. 0 \<le> v \<and> v \<le> height"
  using assms(3)
proof (rule process_wav_file_elems)
  fix header handle p v
  let ?b = "bits_per_sample header div 8"
  let ?bytes = "take ?b (drop p (content handle))"
  assume "pixel_height (sample_value ?b ?bytes) height = Inr v"
  then show "0 \<le> v \<and> v \<le> height"
    using pixel_height_range[OF _ _ assms(1,2), of "sample_value ?b ?bytes"]
      sample_value_range[of ?b ?bytes]
    by (metis Inr_inject)
qed

text \<open>
  The theorem at an 8-bit mono file with the single sample 200 and height 100: the
  series is \<open>[78]\<close>.
\<close>

theorem amplitude_within_height_witness:
  "process_wav_file (wav_file 1 8 [200]) 100 DETAIL = Inr [78]
   \<and> (0::int) \<le> 78 \<and> (78::int) \<le> 100"
proof -
  have p: "process_wav_file (wav_file 1 8 [200]) 100 DETAIL = Inr [78]"
    by code_simp
  have h: "(0::int) \<le> 100" "(100::int) < 2 ^ 53" by simp_all
  show ?thesis
    using amplitude_within_height[OF h p] p by simp
qed

text \<open>
  Claim C10 as stated fails for a height that is not a double: \<open>2 ^ 53 + 3\<close> is
  converted to \<open>2 ^ 53 + 4\<close>, and the 8-bit sample 255 is returned as \<open>2 ^ 53 + 4\<close>,
  above the height.
\<close>

theorem amplitude_above_height_counterexample:
  "process_wav_file (wav_file 1 8 [255]) 9007199254740995 DETAIL = Inr [9007199254740996]"
  by code_simp

section \<open>Claims about the Waveform Renderer\<close>

text \<open>
  Claim C3, as amended. \<^verbatim>\<open>generate_waveform_image\<close> fails with NoData if and only if the
  width and the height are positive, every file is sampled without an exception, and
  the list of channels is empty or the series of the first channel is empty. The series
  of a later channel is not looked at.
\<close>

theorem no_data_iff:
  "generate_waveform_image lanczos wav_files width height foreground background draw_flat
     = Inl NoData
   \<longleftrightarrow> 0 < height \<and> 0 < width
       \<and> (\<exists>series. process_all wav_files height = Inr series
             \<and> (series = [] \<or> hd series = []))"
proof (cases "process_all wav_files height")
  case (Inl e)
  then have "e \<noteq> NoData" using process_all_fails[OF Inl] by (auto simp: sampler_errors_def)
  then show ?thesis using Inl by (simp add: generate_waveform_image_def and_then_def)
next
  case (Inr series)
  show ?thesis
  proof (cases "series = [] \<or> hd series = []")
    case True
    then show ?thesis using Inr by (auto simp: generate_waveform_image_def and_then_def)
  next
    case False
    have "generate_waveform_image lanczos wav_files width height foreground background draw_flat
        \<noteq> Inl NoData"
      using Inr False
      by (auto simp: generate_waveform_image_def and_then_def Let_def
          split: sum.splits if_splits dest!: html2rgb_fails draw_channels_fails)
    then show ?thesis using Inr False by simp
  qed
qed

text \<open>
  The theorem at one file that holds a header and no sample: the call fails with NoData.
\<close>

theorem no_data_iff_witness:
  "generate_waveform_image nearest_neighbour [wav_file 1 16 []] 1 1 ''#FF0000'' ''#FFFFFF'' False
     = Inl NoData"
proof -
  have "process_all [wav_file 1 16 []] 1 = Inr [[]]" by code_simp
  then show ?thesis
    using no_data_iff[of nearest_neighbour "[wav_file 1 16 []]" 1 1 "''#FF0000''" "''#FFFFFF''" False]
    by simp
qed

text \<open>
  Claim C3 as stated fails when a later channel is empty: the second file has no sample,
  its series is empty, and the call returns a canvas of size \<open>1 \<times> 2\<close>.
\<close>

theorem later_channel_empty_counterexample:
  "process_all [wav_file 1 16 [0, 0], wav_file 1 16 []] 1 = Inr [[0], []]
   \<and> canvas_size (generate_waveform_image nearest_neighbour
         [wav_file 1 16 [0, 0], wav_file 1 16 []] 1 1 ''#FF0000'' ''#FFFFFF'' False) = Inr (1, 2)"
  by code_simp

text \<open>
  Claim C2, as amended. For every call to \<^verbatim>\<open>generate_waveform_image\<close> that returns a
  canvas and whose requested width differs from the natural width (the length of the
  first channel's series), the returned canvas has the requested width and the
  per-channel height \<open>H\<close>. It is the resampling of the painted canvas, whose size is the
  natural width by \<open>H\<close> times the number of channels: the resample keeps the height only
  when there is one channel.
\<close>

theorem resampled_canvas_size:
  assumes "generate_waveform_image lanczos wav_files width height foreground background draw_flat
             = Inr img"
    and "process_all wav_files height = Inr series"
    and "width \<noteq> int (length (hd series))"
  shows "img_width img = width \<and> img_height img = height
         \<and> (\<exists>painted. img = resize lanczos painted width height
               \<and> img_width painted = int (length (hd series))
               \<and> img_height painted = height * int (length wav_files))"
proof -
  from generate_waveform_image_Inr[OF assms(1)] assms(2,3)
  obtain blank fg painted where
    blank: "img_width blank = int (length (hd series))"
      "img_height blank = height * int (length wav_files)"
    and painted: "draw_channels height draw_flat fg blank 0 series = Inr painted"
    and img: "img = resize lanczos painted width height"
    by auto
  have "same_shape painted blank" using painted by (rule draw_channels_shape)
  then have "img_width painted = int (length (hd series))"
      "img_height painted = height * int (length wav_files)"
    using blank by (simp_all add: same_shape_def)
  then show ?thesis using img by (auto simp: resize_def)
qed

text \<open>
  The theorem at one channel with one sample, requested width 2 and height 1.
\<close>

theorem resampled_canvas_size_witness:
  "canvas_size (generate_waveform_image nearest_neighbour [wav_file 1 16 [0, 0]] 2 1
     ''#FF0000'' ''#FFFFFF'' False) = Inr (2, 1)"
proof -
  let ?g = "generate_waveform_image nearest_neighbour [wav_file 1 16 [0, 0]] 2 1
     ''#FF0000'' ''#FFFFFF'' False"
  have s: "process_all [wav_file 1 16 [0, 0]] 1 = Inr [[0]]" by code_simp
  have "\<not> isl ?g" by code_simp
  then obtain img where g: "?g = Inr img" by (cases ?g) auto
  have "img_width img = 2 \<and> img_height img = 1"
    using resampled_canvas_size[OF g s] by simp
  then show ?thesis using g by (simp add: canvas_size_def)
qed

text \<open>
  Claim C2 as stated fails for two channels: the painted canvas is \<open>1 \<times> 2\<close>, the
  returned one \<open>2 \<times> 1\<close>, not \<open>2 \<times> 2\<close>.
\<close>

theorem stereo_resample_height_counterexample:
  "process_all [wav_file 1 16 [0, 0], wav_file 1 16 [0, 0]] 1 = Inr [[0], [0]]
   \<and> canvas_size (generate_waveform_image nearest_neighbour
         [wav_file 1 16 [0, 0], wav_file 1 16 [0, 0]] 2 1 ''#FF0000'' ''#FFFFFF'' False)
       = Inr (2, 1)"
  by code_simp




section \<open>Claims about the music analysis\<close>

text \<open>
  Claim C8. When the external analysis capability is unavailable (\<^verbatim>\<open>LIBROSA_AVAILABLE\<close>
  is false), \<^verbatim>\<open>analyze_music\<close> returns a result whose availability flag is false and whose
  fields hold the defaults: key, mode and scale "Unknown", tempo 0, energy "Medium", and
  empty chord, instrument-chord, instrument and genre-hint collections.
\<close>

theorem analyze_music_without_librosa:
  "analysis_available (analyze_music False librosa_analysis mp3_path) = False
   \<and> key (analyze_music False librosa_analysis mp3_path) = ''Unknown''
   \<and> mode (analyze_music False librosa_analysis mp3_path) = ''Unknown''
   \<and> scale (analyze_music False librosa_analysis mp3_path) = ''Unknown''
   \<and> tempo (analyze_music False librosa_analysis mp3_path) = 0
   \<and> energy (analyze_music False librosa_analysis mp3_path) = ''Medium''
   \<and> possible_chords (analyze_music False librosa_analysis mp3_path) = []
   \<and> instrument_chords (analyze_music False librosa_analysis mp3_path) = []
   \<and> instruments (analyze_music False librosa_analysis mp3_path) = []
   \<and> genre_hints (analyze_music False librosa_analysis mp3_path) = []"
  by (simp add: analyze_music_def initial_analysis_def)

end
